theory Spec2Isabelle
  imports Main "HOL-Library.Sublist" "HOL-Library.Multiset"
begin

section \<open>Strings, canonical identifiers and the work queue\<close>

text \<open>
  The downloader of \<^verbatim>\<open>downloader.py\<close> is embedded function by function.
  Python strings are modelled as \<^typ>\<open>string\<close>; the only characters the code
  distinguishes are the line feed, the slash, the decimal digits and white space.
\<close>

definition LF :: char where
  "LF = CHR 0x0A"

definition CR :: char where
  "CR = CHR 0x0D"

text \<open>
  \<^verbatim>\<open>re.sub(r"\/read(\/page\/.+)?", "", url)\<close>.
  \<open>read_match s\<close> is the length of the match of the pattern at the head of \<open>s\<close>:
  the literal \<^verbatim>\<open>/read\<close>, then, when it can, \<^verbatim>\<open>/page/\<close> and the longest
  non-empty run of characters other than the line feed (the dot of the pattern
  does not match a line feed, and the quantifier is greedy).
\<close>

definition read_match :: "string \<Rightarrow> nat option" where
  "read_match s =
     (if prefix ''/read'' s then
        (let r = drop 5 s; t = takeWhile (\<lambda>x. x \<noteq> LF) (drop 6 r)
         in if prefix ''/page/'' r \<and> t \<noteq> [] then Some (11 + length t) else Some 5)
      else None)"

text \<open>
  \<^verbatim>\<open>sanitize_url\<close>: the substitution scans from the left, deletes every match
  and resumes behind it; a character at which nothing matches is copied.
\<close>

function sanitize_url :: "string \<Rightarrow> string" where
  "sanitize_url [] = []"
| "sanitize_url (c # cs) =
     (case read_match (c # cs) of
        Some n \<Rightarrow> sanitize_url (drop n (c # cs))
      | None \<Rightarrow> c # sanitize_url cs)"
  by pat_completeness auto
termination
  by (relation "measure length") (auto simp: read_match_def Let_def split: if_splits)

text \<open>An occurrence of \<^verbatim>\<open>/read\<close> somewhere in a string.\<close>

fun has_read :: "string \<Rightarrow> bool" where
  "has_read [] = False"
| "has_read (c # cs) = (prefix ''/read'' (c # cs) \<or> has_read cs)"

text \<open>\<^verbatim>\<open>line.replace("\n", "")\<close>\<close>

definition strip_newlines :: "string \<Rightarrow> string" where
  "strip_newlines l = filter (\<lambda>c. c \<noteq> LF) l"

text \<open>
  Iterating a file opened in text mode: the content is cut behind every line end,
  and a carriage return, alone or before a line feed, is read as a line feed.
  Every line but possibly the last ends with a line feed.
\<close>

fun text_lines :: "string \<Rightarrow> string \<Rightarrow> string list" where
  "text_lines acc [] = (if acc = [] then [] else [rev acc])"
| "text_lines acc (c # cs) =
     (if c = LF then rev (LF # acc) # text_lines [] cs
      else if c = CR then
        (case cs of
           [] \<Rightarrow> [rev (LF # acc)]
         | d # ds \<Rightarrow> if d = LF then rev (LF # acc) # text_lines [] ds
                     else rev (LF # acc) # text_lines [] (d # ds))
      else text_lines (c # acc) cs)"

text \<open>
  The exceptions that leave \<^verbatim>\<open>load_all\<close> or \<^verbatim>\<open>load_urls_from_collection\<close>:
  \<^verbatim>\<open>SystemExit\<close> is raised by \<^verbatim>\<open>program_exit\<close>; \<^verbatim>\<open>OSError\<close> stands for the
  operating-system errors of the file operations and of \<^verbatim>\<open>Image.open\<close>
  (a missing file, a directory that is not empty, a file that is no image);
  \<^verbatim>\<open>JavascriptException\<close> is a script fault outside the \<^verbatim>\<open>try\<close> block;
  \<^verbatim>\<open>TypeError\<close> is subscripting the \<^verbatim>\<open>None\<close> that \<^verbatim>\<open>div.find('a')\<close> returns.
  The \<^verbatim>\<open>ValueError\<close> of \<^verbatim>\<open>__get_page_count\<close> is always caught and is modelled
  as \<open>None\<close>.
\<close>

datatype abort = SystemExit | OSError | JavascriptException | TypeError

text \<open>
  \<^verbatim>\<open>FDownloader.__get_urls_list\<close>. The three arguments of \<open>collect_urls\<close> are the
  lists \<^verbatim>\<open>done\<close>, \<^verbatim>\<open>failed\<close> and \<^verbatim>\<open>urls\<close> of the source; the fourth is what is
  left of the lines of the requested file. A file that does not exist is \<open>None\<close>,
  and opening it raises.
\<close>

fun collect_urls :: "string list \<Rightarrow> string list \<Rightarrow> string list \<Rightarrow> string list \<Rightarrow> string list" where
  "collect_urls dn failed urls [] = urls"
| "collect_urls dn failed urls (line # rest) =
     (let clean_line = sanitize_url (strip_newlines line)
      in if clean_line \<notin> set dn \<and> clean_line \<notin> set failed \<and> clean_line \<notin> set urls
         then collect_urls dn failed (urls @ [clean_line]) rest
         else collect_urls dn failed urls rest)"

definition get_urls_list :: "string option \<Rightarrow> string option \<Rightarrow> string option \<Rightarrow> abort + string list" where
  "get_urls_list done_file fail_file urls_file =
     (case done_file of None \<Rightarrow> Inl OSError | Some donef \<Rightarrow>
      (case fail_file of None \<Rightarrow> Inl OSError | Some failf \<Rightarrow>
       (case urls_file of None \<Rightarrow> Inl OSError | Some f \<Rightarrow>
          Inr (collect_urls (map strip_newlines (text_lines [] donef))
                 (map strip_newlines (text_lines [] failf)) [] (text_lines [] f)))))"

text \<open>A text file written one line per entry.\<close>

definition unlines :: "string list \<Rightarrow> string" where
  "unlines ls = concat (map (\<lambda>l. l @ [LF]) ls)"

section \<open>Numbers in strings\<close>

definition is_digit :: "char \<Rightarrow> bool" where
  "is_digit c = (c \<in> set ''0123456789'')"

definition digit_value :: "char \<Rightarrow> nat" where
  "digit_value c = of_char c - 48"

definition digit_char :: "nat \<Rightarrow> char" where
  "digit_char d = ''0123456789'' ! d"

text \<open>\<^verbatim>\<open>int(s)\<close> on a non-empty string of decimal digits.\<close>

definition nat_of_digits :: "string \<Rightarrow> nat" where
  "nat_of_digits ds = foldl (\<lambda>a c. 10 * a + digit_value c) 0 ds"

text \<open>The decimal numeral an f-string writes for a non-negative integer.\<close>

function str_nat :: "nat \<Rightarrow> string" where
  "str_nat n = (if n < 10 then [digit_char n] else str_nat (n div 10) @ [digit_char (n mod 10)])"
  by pat_completeness auto
termination
  by (relation "measure id") auto

declare str_nat.simps [simp del]

text \<open>
  The search of \<^verbatim>\<open>__get_page_count\<close> in the page source: a double quote and a
  closing angle bracket, one or more digits, \<^verbatim>\<open> page\<close>, an optional \<^verbatim>\<open>s\<close> and
  the closing \<^verbatim>\<open>div\<close> tag. \<open>page_marker_match\<close> is the number of the marker that
  starts at the head of the string, \<open>get_page_count\<close> the leftmost one; \<open>None\<close> is
  the \<^verbatim>\<open>ValueError\<close>.
\<close>

definition page_marker_match :: "string \<Rightarrow> nat option" where
  "page_marker_match s =
     (if prefix [CHR 0x22, CHR ''>''] s then
        (let r = drop 2 s; ds = takeWhile is_digit r; r' = dropWhile is_digit r
         in if ds \<noteq> [] \<and> prefix '' page'' r' \<and>
               (prefix ''s</div>'' (drop 5 r') \<or> prefix ''</div>'' (drop 5 r'))
            then Some (nat_of_digits ds) else None)
      else None)"

fun get_page_count :: "string \<Rightarrow> nat option" where
  "get_page_count [] = None"
| "get_page_count (c # cs) =
     (case page_marker_match (c # cs) of
        Some n \<Rightarrow> Some n
      | None \<Rightarrow> get_page_count cs)"

text \<open>
  \<^verbatim>\<open>re.search(r"\/page\/(\d+)", href)\<close> in \<^verbatim>\<open>__get_page_count_in_collection\<close>,
  also the filter that selects the pagination links.
\<close>

definition page_link_match :: "string \<Rightarrow> nat option" where
  "page_link_match s =
     (if prefix ''/page/'' s \<and> takeWhile is_digit (drop 6 s) \<noteq> []
      then Some (nat_of_digits (takeWhile is_digit (drop 6 s))) else None)"

fun page_link_number :: "string \<Rightarrow> nat option" where
  "page_link_number [] = None"
| "page_link_number (c # cs) =
     (case page_link_match (c # cs) of
        Some n \<Rightarrow> Some n
      | None \<Rightarrow> page_link_number cs)"

section \<open>The site, the configuration and the state of a run\<close>

definition BASE_URL :: string where
  "BASE_URL = ''https://www.fakku.net''"

definition LOGIN_URL :: string where
  "LOGIN_URL = BASE_URL @ ''/login/''"

definition FAIL_THRESHOLD :: int where
  "FAIL_THRESHOLD = 1000"

text \<open>
  What the code observes of a loaded page: its source text; whether the marker
  elements of \<^verbatim>\<open>waiting_loading_page\<close> are located before the timeout; whether an
  \<^verbatim>\<open>iframe\<close> element exists; the number of elements of class \<^verbatim>\<open>layer\<close>; the
  width and height of the \<^verbatim>\<open>canvas\<close> elements in document order; whether the
  scripts of \<^verbatim>\<open>set_viewport_size\<close> fault; the \<^verbatim>\<open>href\<close> of every \<^verbatim>\<open>a\<close> element
  that has one; and for every \<^verbatim>\<open>div\<close> of class \<^verbatim>\<open>col-comic\<close> the \<^verbatim>\<open>href\<close> of its
  first \<^verbatim>\<open>a\<close> element (\<open>None\<close> when it has none).
\<close>

record page =
  page_source :: string
  icon_present :: bool
  iframe_present :: bool
  page_view_present :: bool
  layers :: nat
  canvases :: "(int \<times> int) list"
  metrics_fault :: bool
  anchors :: "string list"
  comics :: "string option list"

text \<open>
  The world outside the program: the page behind every address, the size of the
  image a screenshot gives at an address with a window size, and the difference
  between the outer and the inner size of the browser window.
\<close>

record world =
  site :: "string \<Rightarrow> page"
  render :: "string \<Rightarrow> int \<times> int \<Rightarrow> int \<times> int"
  chrome :: "int \<times> int"

record config =
  root_manga_dir :: string
  default_display :: "int \<times> int"
  max_items :: "int option"
  pack :: bool
  viewport :: bool

datatype content = Img int int | Archive "(string \<times> content) list" | Other

datatype marker = IconLink | PageView

datatype event =
    Get string
  | Sleep nat
  | SwitchFrame
  | SwitchDefault
  | FrameMissing
  | Located marker
  | TimedOut marker
  | Resize int int
  | RemoveLayer int
  | Screenshot string
  | OpenImage string
  | CloseBrowser
  | InitBrowser

datatype message =
    ProgramExitMsg
  | IframeMsg
  | TimeoutMsg
  | JsErrorMsg
  | FailedMsg string
  | DownloadingMsg string

text \<open>
  The state a run changes: the address and the window size of the browser, the
  files and directories on disk (each under the place its path leads to), the
  text of the three list files, what was printed, and the history of browser and
  image operations.
\<close>

record state =
  location :: string
  window :: "int \<times> int"
  files :: "(string list \<times> content) list"
  dirs :: "string list list"
  done_txt :: string
  fail_txt :: string
  urls_txt :: string
  out :: "message list"
  trace :: "event list"

type_synonym 'a act = "state \<Rightarrow> (abort + 'a) \<times> state"

definition then_do :: "'a act \<Rightarrow> ('a \<Rightarrow> 'b act) \<Rightarrow> 'b act" where
  "then_do m f s = (case m s of (Inl e, s') \<Rightarrow> (Inl e, s') | (Inr a, s') \<Rightarrow> f a s')"

definition emit :: "event \<Rightarrow> state \<Rightarrow> state" where
  "emit e s = s\<lparr>trace := trace s @ [e]\<rparr>"

definition say :: "message \<Rightarrow> state \<Rightarrow> state" where
  "say m s = s\<lparr>out := out s @ [m]\<rparr>"

section \<open>Files and directories\<close>

text \<open>\<^verbatim>\<open>os.sep.join([a, b])\<close>\<close>

definition path_join :: "string \<Rightarrow> string \<Rightarrow> string" where
  "path_join a b = a @ ''/'' @ b"

definition page_file :: "string \<Rightarrow> nat \<Rightarrow> string" where
  "page_file folder page_num = path_join folder (str_nat page_num @ ''.png'')"

text \<open>\<^verbatim>\<open>url.split("/")[-1]\<close>\<close>

definition last_segment :: "string \<Rightarrow> string" where
  "last_segment url = rev (takeWhile (\<lambda>c. c \<noteq> CHR ''/'') (rev url))"

text \<open>
  The operating system does not take a path letter for letter: it goes through
  its components. \<open>split_path\<close> cuts a path at the separators; \<open>step_path\<close> follows
  one component from a place: an empty component and \<^verbatim>\<open>.\<close> stay, \<^verbatim>\<open>..\<close> goes to the
  parent, a name goes down. \<open>norm_path\<close> is the place a path leads to, as the list
  of the names from the working directory (the empty list) or, for an absolute
  path, from the root \<^verbatim>\<open>/\<close>. Symbolic links are not modelled.
\<close>

fun split_path :: "string \<Rightarrow> string \<Rightarrow> string list" where
  "split_path acc [] = [rev acc]"
| "split_path acc (c # cs) =
     (if c = CHR ''/'' then rev acc # split_path [] cs else split_path (c # acc) cs)"

definition step_path :: "string list \<Rightarrow> string \<Rightarrow> string list" where
  "step_path q c =
     (if c = [] \<or> c = ''.'' then q
      else if c = ''..'' then
        (if q = [] \<or> last q = ''..'' then q @ [''..'']
         else if q = [''/''] then q
         else butlast q)
      else q @ [c])"

definition norm_path :: "string \<Rightarrow> string list" where
  "norm_path p = foldl step_path (if prefix ''/'' p then [''/''] else []) (split_path [] p)"

text \<open>
  The files and the directories of a state are kept under the places they are
  at. The working directory and the root always exist.
\<close>

definition isfile :: "state \<Rightarrow> string \<Rightarrow> bool" where
  "isfile s p = (map_of (files s) (norm_path p) \<noteq> None)"

definition isdir :: "state \<Rightarrow> string \<Rightarrow> bool" where
  "isdir s p = (norm_path p = [] \<or> norm_path p = [''/''] \<or> norm_path p \<in> set (dirs s))"

definition path_exists :: "state \<Rightarrow> string \<Rightarrow> bool" where
  "path_exists s p = (isfile s p \<or> isdir s p)"

text \<open>A place strictly below a directory.\<close>

definition inside :: "string list \<Rightarrow> string list \<Rightarrow> bool" where
  "inside d q = strict_prefix d q"

definition dir_empty :: "state \<Rightarrow> string list \<Rightarrow> bool" where
  "dir_empty s d = list_all (\<lambda>q. \<not> inside d q) (map fst (files s) @ dirs s)"

text \<open>The directory an entry would be made in exists.\<close>

definition parent_is_dir :: "state \<Rightarrow> string \<Rightarrow> bool" where
  "parent_is_dir s p =
     (let q = norm_path p
      in q \<noteq> [] \<and> (butlast q = [] \<or> butlast q = [''/''] \<or> butlast q \<in> set (dirs s)))"

definition write_file ::
  "string list \<Rightarrow> content \<Rightarrow> (string list \<times> content) list \<Rightarrow> (string list \<times> content) list" where
  "write_file q c fs = (q, c) # filter (\<lambda>e. fst e \<noteq> q) fs"

definition delete_file ::
  "string list \<Rightarrow> (string list \<times> content) list \<Rightarrow> (string list \<times> content) list" where
  "delete_file q fs = filter (\<lambda>e. fst e \<noteq> q) fs"

text \<open>\<^verbatim>\<open>os.mkdir\<close>, \<^verbatim>\<open>os.remove\<close> and \<^verbatim>\<open>os.rmdir\<close>, each with its error.\<close>

definition os_mkdir :: "string \<Rightarrow> unit act" where
  "os_mkdir p s =
     (if path_exists s p \<or> \<not> parent_is_dir s p then (Inl OSError, s)
      else (Inr (), s\<lparr>dirs := dirs s @ [norm_path p]\<rparr>))"

definition os_remove :: "string \<Rightarrow> unit act" where
  "os_remove p s =
     (if isfile s p then (Inr (), s\<lparr>files := delete_file (norm_path p) (files s)\<rparr>)
      else (Inl OSError, s))"

definition os_rmdir :: "string \<Rightarrow> unit act" where
  "os_rmdir p s =
     (if norm_path p \<in> set (dirs s) \<and> dir_empty s (norm_path p)
      then (Inr (), s\<lparr>dirs := removeAll (norm_path p) (dirs s)\<rparr>)
      else (Inl OSError, s))"

text \<open>\<^verbatim>\<open>Image.open\<close> and the reading of \<^verbatim>\<open>img.width\<close> and \<^verbatim>\<open>img.height\<close>.\<close>

definition image_open :: "string \<Rightarrow> (int \<times> int) act" where
  "image_open p s =
     (case map_of (files s) (norm_path p) of
        Some (Img wd ht) \<Rightarrow> (Inr (wd, ht), emit (OpenImage p) s)
      | _ \<Rightarrow> (Inl OSError, emit (OpenImage p) s))"

section \<open>The browser\<close>

definition browser_get :: "string \<Rightarrow> state \<Rightarrow> state" where
  "browser_get url s = emit (Get url) (s\<lparr>location := url\<rparr>)"

definition set_window_size :: "int \<times> int \<Rightarrow> state \<Rightarrow> state" where
  "set_window_size wh s = emit (Resize (fst wh) (snd wh)) (s\<lparr>window := wh\<rparr>)"

text \<open>
  \<^verbatim>\<open>save_screenshot\<close> writes the image when the file can be written and returns
  \<^verbatim>\<open>False\<close>, which the caller drops, when it cannot.
\<close>

definition save_screenshot :: "world \<Rightarrow> string \<Rightarrow> state \<Rightarrow> state" where
  "save_screenshot w p s =
     (let s1 = emit (Screenshot p) s; wh = render w (location s) (window s)
      in if parent_is_dir s p \<and> \<not> isdir s p
         then s1\<lparr>files := write_file (norm_path p) (Img (fst wh) (snd wh)) (files s1)\<rparr>
         else s1)"

text \<open>\<^verbatim>\<open>program_exit\<close>\<close>

definition program_exit :: "'a act" where
  "program_exit s = (Inl SystemExit, say ProgramExitMsg s)"

text \<open>
  \<^verbatim>\<open>FDownloader.waiting_loading_page\<close>. The sleep is recorded in multiples of
  the configured wait.
\<close>

definition waiting_loading_page :: "world \<Rightarrow> bool \<Rightarrow> bool \<Rightarrow> unit act" where
  "waiting_loading_page w is_reader_page should_add_delay s =
     (let pg = site w (location s);
          s1 = emit (Sleep (if is_reader_page \<and> should_add_delay then 3 else 1)) s;
          elem = (if is_reader_page then PageView else IconLink)
      in if is_reader_page \<and> \<not> iframe_present pg
         then program_exit (say IframeMsg (emit FrameMissing s1))
         else
           (let s2 = emit (if is_reader_page then SwitchFrame else SwitchDefault) s1
            in if (if is_reader_page then page_view_present pg else icon_present pg)
               then (Inr (), emit (Located elem) s2)
               else program_exit (say TimeoutMsg (emit (TimedOut elem) s2))))"

text \<open>
  \<^verbatim>\<open>FDownloader.set_viewport_size\<close>; \<open>None\<close> is the \<^verbatim>\<open>JavascriptException\<close> of one of
  its two scripts.
\<close>

definition set_viewport_size :: "world \<Rightarrow> int \<Rightarrow> int \<Rightarrow> state \<Rightarrow> state option" where
  "set_viewport_size w width height s =
     (if metrics_fault (site w (location s)) then None
      else Some (set_window_size (fst (chrome w) + width, snd (chrome w) + height) s))"

text \<open>
  Reading \<^verbatim>\<open>document.getElementsByTagName('canvas')[i].width\<close> and \<^verbatim>\<open>.height\<close>:
  an index outside the collection gives \<^verbatim>\<open>undefined\<close>, and the property access
  faults.
\<close>

definition canvas_size :: "page \<Rightarrow> int \<Rightarrow> (int \<times> int) option" where
  "canvas_size pg i =
     (if 0 \<le> i \<and> nat i < length (canvases pg) then Some (canvases pg ! nat i) else None)"

text \<open>
  The \<^verbatim>\<open>try\<close> block of the page loop of \<^verbatim>\<open>load_all\<close>: a fault of a script leaves
  the window as it is and prints the message.
\<close>

definition resize_to_canvas :: "config \<Rightarrow> world \<Rightarrow> int \<Rightarrow> state \<Rightarrow> state" where
  "resize_to_canvas cfg w n s =
     (case canvas_size (site w (location s)) (n - 2) of
        None \<Rightarrow> say JsErrorMsg s
      | Some (width, height) \<Rightarrow>
          if viewport cfg then
            (case set_viewport_size w width height s of
               None \<Rightarrow> say JsErrorMsg s
             | Some s' \<Rightarrow> s')
          else set_window_size (width, height) s)"

text \<open>
  The body of the page loop behind the synchronisation: the layer count, the
  resize, the removal of the top layer (a fault when there is no layer, outside
  the \<^verbatim>\<open>try\<close> block) and the screenshot.
\<close>

definition capture_page :: "config \<Rightarrow> world \<Rightarrow> string \<Rightarrow> unit act" where
  "capture_page cfg w destination_file s =
     (let n = int (layers (site w (location s)));
          s1 = resize_to_canvas cfg w n s
      in if n - 1 < 0 then (Inl JavascriptException, s1)
         else (Inr (), save_screenshot w destination_file (emit (RemoveLayer (n - 1)) s1)))"

section \<open>The capture pipeline\<close>

text \<open>The page loop of \<^verbatim>\<open>load_all\<close> over \<^verbatim>\<open>range(1, page_count + 1)\<close>.\<close>

fun fetch_pages :: "config \<Rightarrow> world \<Rightarrow> string \<Rightarrow> string \<Rightarrow> bool \<Rightarrow> nat list \<Rightarrow> unit act" where
  "fetch_pages cfg w url manga_folder delay_before_fetching [] s = (Inr (), s)"
| "fetch_pages cfg w url manga_folder delay_before_fetching (page_num # rest) s =
     (let destination_file = page_file manga_folder page_num
      in if isfile s destination_file
         then fetch_pages cfg w url manga_folder True rest s
         else
           (case waiting_loading_page w True delay_before_fetching
                   (browser_get (url @ ''/read/page/'' @ str_nat page_num) s) of
              (Inl e, s1) \<Rightarrow> (Inl e, s1)
            | (Inr _, s1) \<Rightarrow>
                (case capture_page cfg w destination_file s1 of
                   (Inl e, s2) \<Rightarrow> (Inl e, s2)
                 | (Inr _, s2) \<Rightarrow> fetch_pages cfg w url manga_folder False rest s2)))"

text \<open>The validation loop of \<^verbatim>\<open>load_all\<close>; the result is the flag \<^verbatim>\<open>failed\<close>.\<close>

fun check_pages :: "string \<Rightarrow> bool \<Rightarrow> nat list \<Rightarrow> bool act" where
  "check_pages manga_folder failed [] s = (Inr failed, s)"
| "check_pages manga_folder failed (page_num # rest) s =
     (case image_open (page_file manga_folder page_num) s of
        (Inl e, s1) \<Rightarrow> (Inl e, s1)
      | (Inr (wd, ht), s1) \<Rightarrow>
          check_pages manga_folder (failed \<or> wd < FAIL_THRESHOLD \<or> ht < FAIL_THRESHOLD) rest s1)"

text \<open>\<^verbatim>\<open>FDownloader.remove_manga_folder\<close>\<close>

fun remove_pages :: "string \<Rightarrow> nat list \<Rightarrow> unit act" where
  "remove_pages manga_folder [] s = (Inr (), s)"
| "remove_pages manga_folder (page_num # rest) s =
     (let file = page_file manga_folder page_num
      in if path_exists s file
         then (case os_remove file s of
                 (Inl e, s1) \<Rightarrow> (Inl e, s1)
               | (Inr _, s1) \<Rightarrow> remove_pages manga_folder rest s1)
         else remove_pages manga_folder rest s)"

definition remove_manga_folder :: "string \<Rightarrow> nat \<Rightarrow> unit act" where
  "remove_manga_folder manga_folder page_count =
     then_do (remove_pages manga_folder [1..<Suc page_count]) (\<lambda>_. os_rmdir manga_folder)"

text \<open>\<^verbatim>\<open>FDownloader.add_done\<close> and \<^verbatim>\<open>FDownloader.add_failed\<close>\<close>

definition add_done :: "string \<Rightarrow> state \<Rightarrow> state" where
  "add_done url s = s\<lparr>done_txt := done_txt s @ url @ [LF]\<rparr>"

definition add_failed :: "string \<Rightarrow> state \<Rightarrow> state" where
  "add_failed url s = (say (FailedMsg url) s)\<lparr>fail_txt := fail_txt s @ url @ [LF]\<rparr>"

text \<open>
  \<^verbatim>\<open>self.browser.close()\<close> and \<^verbatim>\<open>self.init_browser(headless=True)\<close>: a new
  browser that has loaded the login page for its cookies and has the default
  window size.
\<close>

definition reinit_browser :: "config \<Rightarrow> state \<Rightarrow> state" where
  "reinit_browser cfg s =
     set_window_size (default_display cfg)
       (browser_get LOGIN_URL (emit InitBrowser (emit CloseBrowser s)))"

text \<open>
  The packaging of \<^verbatim>\<open>load_all\<close>: the archive is created when it is opened, and
  it keeps the members written so far when a page file is missing.
\<close>

fun write_members :: "string \<Rightarrow> string \<Rightarrow> (string \<times> content) list \<Rightarrow> nat list \<Rightarrow> unit act" where
  "write_members zipname manga_folder acc [] s =
     (Inr (), s\<lparr>files := write_file (norm_path zipname) (Archive acc) (files s)\<rparr>)"
| "write_members zipname manga_folder acc (page_num # rest) s =
     (case map_of (files s) (norm_path (page_file manga_folder page_num)) of
        None \<Rightarrow> (Inl OSError, s\<lparr>files := write_file (norm_path zipname) (Archive acc) (files s)\<rparr>)
      | Some c \<Rightarrow>
          write_members zipname manga_folder (acc @ [(str_nat page_num @ ''.png'', c)]) rest s)"

definition pack_item :: "config \<Rightarrow> string \<Rightarrow> string \<Rightarrow> nat \<Rightarrow> unit act" where
  "pack_item cfg manga_name manga_folder page_count s =
     (let zipname = path_join (root_manga_dir cfg) (manga_name @ ''.cbz'')
      in if isdir s zipname \<or> \<not> parent_is_dir s zipname then (Inl OSError, s)
         else then_do (write_members zipname manga_folder [] [1..<Suc page_count])
                (\<lambda>_ s1. if path_exists s1 zipname
                         then remove_manga_folder manga_folder page_count s1
                         else (Inr (), s1)) s)"

text \<open>
  The end of the body of the main loop, from the validation on. The result
  \<open>True\<close> is an item that reached \<^verbatim>\<open>add_done\<close>, \<open>False\<close> one that left the body
  by \<^verbatim>\<open>continue\<close>.
\<close>

definition finish_item :: "config \<Rightarrow> string \<Rightarrow> string \<Rightarrow> string \<Rightarrow> nat \<Rightarrow> bool act" where
  "finish_item cfg url manga_name manga_folder page_count =
     then_do (check_pages manga_folder False [1..<Suc page_count])
       (\<lambda>failed s.
          if failed then
            then_do (remove_manga_folder manga_folder page_count)
              (\<lambda>_ s2. (Inr False, reinit_browser cfg s2)) (add_failed url s)
          else
            then_do (if pack cfg then pack_item cfg manga_name manga_folder page_count
                     else (\<lambda>s1. (Inr (), s1)))
              (\<lambda>_ s2. (Inr True, add_done url s2)) s)"

text \<open>The body of the main loop for a url that is not blank.\<close>

definition process_item :: "config \<Rightarrow> world \<Rightarrow> string \<Rightarrow> bool act" where
  "process_item cfg w raw_url =
     (let url = sanitize_url raw_url
      in then_do (\<lambda>s. waiting_loading_page w False False (browser_get url s))
           (\<lambda>_ s1.
              case get_page_count (page_source (site w (location s1))) of
                None \<Rightarrow> (Inr False, add_failed url s1)
              | Some page_count \<Rightarrow>
                  (let manga_name = last_segment url;
                       manga_folder = path_join (root_manga_dir cfg) manga_name
                   in then_do (if \<not> path_exists s1 manga_folder then os_mkdir manga_folder
                               else (\<lambda>s. (Inr (), s)))
                        (\<lambda>_. then_do
                                (\<lambda>s2. fetch_pages cfg w url manga_folder True [1..<Suc page_count]
                                         (say (DownloadingMsg manga_name) s2))
                                (\<lambda>_. finish_item cfg url manga_name manga_folder page_count))
                        s1)))"

text \<open>\<^verbatim>\<open>not url.strip()\<close>: every character is white space.\<close>

definition is_space :: "char \<Rightarrow> bool" where
  "is_space c = ((of_char c :: nat) \<in> set [9, 10, 11, 12, 13, 28, 29, 30, 31, 32, 133, 160])"

definition blank :: "string \<Rightarrow> bool" where
  "blank url = list_all is_space url"

text \<open>\<^verbatim>\<open>self.max is not None and urls_processed >= self.max\<close>\<close>

definition cap_reached :: "config \<Rightarrow> nat \<Rightarrow> bool" where
  "cap_reached cfg urls_processed =
     (case max_items cfg of None \<Rightarrow> False | Some m \<Rightarrow> m \<le> int urls_processed)"

text \<open>The main loop of \<^verbatim>\<open>load_all\<close>, and \<^verbatim>\<open>load_all\<close>.\<close>

fun load_loop :: "config \<Rightarrow> world \<Rightarrow> nat \<Rightarrow> string list \<Rightarrow> unit act" where
  "load_loop cfg w urls_processed [] s = (Inr (), s)"
| "load_loop cfg w urls_processed (url # rest) s =
     (if blank url then load_loop cfg w urls_processed rest s
      else
        (case process_item cfg w url s of
           (Inl e, s1) \<Rightarrow> (Inl e, s1)
         | (Inr False, s1) \<Rightarrow> load_loop cfg w urls_processed rest s1
         | (Inr True, s1) \<Rightarrow>
             if cap_reached cfg (Suc urls_processed) then (Inr (), s1)
             else load_loop cfg w (Suc urls_processed) rest s1))"

definition load_all :: "config \<Rightarrow> world \<Rightarrow> string list \<Rightarrow> unit act" where
  "load_all cfg w urls s =
     then_do (\<lambda>s0. if \<not> path_exists s0 (root_manga_dir cfg) then os_mkdir (root_manga_dir cfg) s0
                   else (Inr (), s0))
       (\<lambda>_. load_loop cfg w 0 urls) (set_window_size (default_display cfg) s)"

section \<open>Collection expansion\<close>

text \<open>\<^verbatim>\<open>max\<close> of a non-empty list.\<close>

fun list_max :: "nat list \<Rightarrow> nat" where
  "list_max [] = 0"
| "list_max (x # xs) = fold max xs x"

text \<open>
  \<^verbatim>\<open>FDownloader.__get_page_count_in_collection\<close>. The pagination links are the
  anchors whose \<^verbatim>\<open>href\<close> the pattern finds a page number in.
\<close>

definition get_page_count_in_collection :: "page \<Rightarrow> nat" where
  "get_page_count_in_collection pg =
     (let page_links = List.map_filter page_link_number (anchors pg)
      in if 0 < length page_links then list_max page_links else 1)"

text \<open>The inner loop of \<^verbatim>\<open>load_urls_from_collection\<close> over the listing entries.\<close>

fun write_comics :: "string option list \<Rightarrow> unit act" where
  "write_comics [] s = (Inr (), s)"
| "write_comics (d # ds) s =
     (case d of
        None \<Rightarrow> (Inl TypeError, s)
      | Some href \<Rightarrow> write_comics ds (s\<lparr>urls_txt := urls_txt s @ BASE_URL @ href @ [LF]\<rparr>))"

fun expand_pages :: "world \<Rightarrow> string \<Rightarrow> nat list \<Rightarrow> unit act" where
  "expand_pages w collection_url [] s = (Inr (), s)"
| "expand_pages w collection_url (page_num # rest) s =
     (case (if page_num \<noteq> 1
            then waiting_loading_page w False False
                   (browser_get (collection_url @ ''/page/'' @ str_nat page_num) s)
            else (Inr (), s)) of
        (Inl e, s1) \<Rightarrow> (Inl e, s1)
      | (Inr _, s1) \<Rightarrow>
          (case write_comics (comics (site w (location s1))) s1 of
             (Inl e, s2) \<Rightarrow> (Inl e, s2)
           | (Inr _, s2) \<Rightarrow> expand_pages w collection_url rest s2))"

definition load_urls_from_collection :: "world \<Rightarrow> string \<Rightarrow> unit act" where
  "load_urls_from_collection w collection_url =
     then_do (\<lambda>s. waiting_loading_page w False False (browser_get collection_url s))
       (\<lambda>_ s1. expand_pages w collection_url
                 [1..<Suc (get_page_count_in_collection (site w (location s1)))] s1)"

section \<open>Example inputs\<close>

text \<open>
  A configuration, pages and a starting state for the concrete runs below: the
  pages of an item carry the page-count marker on the index page and a frame, a
  page view, three layers and two canvases on a reader page.
\<close>

definition cfg0 :: config where
  "cfg0 = \<lparr>root_manga_dir = ''manga'', default_display = (1440, 2560), max_items = None,
            pack = False, viewport = False\<rparr>"

definition empty_page :: page where
  "empty_page = \<lparr>page_source = [], icon_present = False, iframe_present = False,
     page_view_present = False, layers = 0, canvases = [], metrics_fault = False,
     anchors = [], comics = []\<rparr>"

definition index_page :: "nat \<Rightarrow> page" where
  "index_page n = empty_page\<lparr>page_source := ''<div class='' @ [CHR 0x22, CHR ''c'', CHR 0x22, CHR ''>'']
       @ str_nat n @ '' pages</div>'', icon_present := True\<rparr>"

definition reader_page :: "int \<Rightarrow> int \<Rightarrow> page" where
  "reader_page wd ht = empty_page\<lparr>iframe_present := True, page_view_present := True,
     layers := 3, canvases := [(300, 150), (wd, ht)]\<rparr>"

definition s0 :: state where
  "s0 = \<lparr>location = [], window = (1440, 2560), files = [], dirs = [[''manga'']], done_txt = [],
          fail_txt = [], urls_txt = [], out = [], trace = []\<rparr>"

text \<open>
  A site whose reader page for \<^verbatim>\<open>x\<close> has one layer and no canvas, and whose index
  page for \<^verbatim>\<open>y\<close> loads without a page-count marker.
\<close>

definition world_unready :: world where
  "world_unready =
     \<lparr>site = (\<lambda>u. if u = ''https://site/x/read/page/1''
                     then (reader_page 1200 1700)\<lparr>layers := 1, canvases := []\<rparr>
                   else if u = ''https://site/y'' then empty_page\<lparr>icon_present := True\<rparr>
                   else empty_page),
      render = (\<lambda>u wh. wh), chrome = (0, 0)\<rparr>"

text \<open>
  A collection of three listing pages with four entries each; the entry
  \<^verbatim>\<open>/hentai/d\<close> is listed on the first and on the second page.
\<close>

definition collection_url :: string where
  "collection_url = ''https://www.fakku.net/collections/c''"

definition listing_page :: "string list \<Rightarrow> page" where
  "listing_page hrefs = empty_page\<lparr>icon_present := True,
     anchors := [''/collections/c/page/1'', ''/collections/c/page/2'', ''/collections/c/page/3''] @ hrefs,
     comics := map Some hrefs\<rparr>"

definition world_collection :: world where
  "world_collection =
     \<lparr>site = (\<lambda>u. if u = collection_url
                     then listing_page [''/hentai/a'', ''/hentai/b'', ''/hentai/c'', ''/hentai/d'']
                   else if u = collection_url @ ''/page/2''
                     then listing_page [''/hentai/d'', ''/hentai/e'', ''/hentai/f'', ''/hentai/g'']
                   else if u = collection_url @ ''/page/3''
                     then listing_page [''/hentai/h'', ''/hentai/i'', ''/hentai/j'', ''/hentai/k'']
                   else empty_page),
      render = (\<lambda>u wh. wh), chrome = (0, 0)\<rparr>"

text \<open>
  A site whose item \<^verbatim>\<open>x\<close> has one page, and whose reader page is not rendered yet:
  it has a frame and a page view, but no layer and no canvas.
\<close>

definition world_no_layer :: world where
  "world_no_layer =
     \<lparr>site = (\<lambda>u. if u = ''https://site/x'' then index_page 1
                   else if u = ''https://site/x/read/page/1''
                     then (reader_page 1200 1700)\<lparr>layers := 0, canvases := []\<rparr>
                   else empty_page),
      render = (\<lambda>u wh. wh), chrome = (0, 0)\<rparr>"

text \<open>
  A resumed item: the site serves the one page of \<^verbatim>\<open>x\<close> at full size, the index
  page of \<^verbatim>\<open>z\<close> never gets ready, and the disk already holds an undersized first
  page of \<^verbatim>\<open>x\<close> from an earlier run.
\<close>

definition world_resume :: world where
  "world_resume =
     \<lparr>site = (\<lambda>u. if u = ''https://site/x'' then index_page 1
                   else if u = ''https://site/x/read/page/1'' then reader_page 1200 1700
                   else empty_page),
      render = (\<lambda>u wh. wh), chrome = (0, 0)\<rparr>"

definition s_resume :: state where
  "s_resume = s0\<lparr>dirs := [[''manga''], [''manga'', ''x'']],
                  files := [([''manga'', ''x'', ''1.png''], Img 800 1200)]\<rparr>"

section \<open>Histories of a run\<close>

text \<open>
  The two events with which \<^verbatim>\<open>waiting_loading_page\<close> gives up: the content frame
  is missing, or the marker element was not located before the timeout.
\<close>

fun fatal :: "event \<Rightarrow> bool" where
  "fatal FrameMissing = True"
| "fatal (TimedOut m) = True"
| "fatal e = False"

text \<open>
  \<open>quiet s s'\<close>: from \<open>s\<close> to \<open>s'\<close> the history grew by events none of which is
  fatal, and the completed and the failed list only grew. \<open>exits s s'\<close>: the
  same, but for one fatal event at the very end of the history.
\<close>

definition quiet :: "state \<Rightarrow> state \<Rightarrow> bool" where
  "quiet s s' =
     ((\<exists>evs. trace s' = trace s @ evs \<and> list_all (\<lambda>e. \<not> fatal e) evs)
      \<and> prefix (done_txt s) (done_txt s') \<and> prefix (fail_txt s) (fail_txt s'))"

definition exits :: "state \<Rightarrow> state \<Rightarrow> bool" where
  "exits s s' =
     ((\<exists>evs e. trace s' = trace s @ evs @ [e] \<and> list_all (\<lambda>e. \<not> fatal e) evs \<and> fatal e)
      \<and> prefix (done_txt s) (done_txt s') \<and> prefix (fail_txt s) (fail_txt s'))"

definition run_ok :: "state \<Rightarrow> (abort + 'a) \<times> state \<Rightarrow> bool" where
  "run_ok s rs = (if fst rs = Inl SystemExit then exits s (snd rs) else quiet s (snd rs))"

text \<open>
  \<open>same_lists s s'\<close>: the completed and the failed list are the same in both
  states. \<open>recorded flag urls oks\<close> is the text a list file gains from the urls
  whose outcome in \<open>oks\<close> is \<open>flag\<close>: one line with the canonical form for each.
\<close>

definition same_lists :: "state \<Rightarrow> state \<Rightarrow> bool" where
  "same_lists s s' = (done_txt s' = done_txt s \<and> fail_txt s' = fail_txt s)"

definition recorded :: "bool \<Rightarrow> string list \<Rightarrow> bool list \<Rightarrow> string" where
  "recorded flag urls oks =
     concat (map (\<lambda>uo. sanitize_url (fst uo) @ [LF]) (filter (\<lambda>uo. snd uo = flag) (zip urls oks)))"

text \<open>
  \<open>item_outcome u s rs\<close>: what the body of the main loop may do to the two lists
  for the item \<open>u\<close>: an item that reaches \<^verbatim>\<open>add_done\<close> gains the completed list
  one line, an item that is given up gains the failed list one line, and an
  exception leaves both as they are or leaves one line in the failed list.
\<close>

definition item_outcome :: "string \<Rightarrow> state \<Rightarrow> (abort + bool) \<times> state \<Rightarrow> bool" where
  "item_outcome u s rs =
     (case fst rs of
        Inr True \<Rightarrow> done_txt (snd rs) = done_txt s @ u @ [LF] \<and> fail_txt (snd rs) = fail_txt s
      | Inr False \<Rightarrow> fail_txt (snd rs) = fail_txt s @ u @ [LF] \<and> done_txt (snd rs) = done_txt s
      | Inl e \<Rightarrow> done_txt (snd rs) = done_txt s
                 \<and> (fail_txt (snd rs) = fail_txt s \<or> fail_txt (snd rs) = fail_txt s @ u @ [LF]))"

section \<open>What is on disk for an item\<close>

text \<open>
  The conditions of the validation step, on the state in which it starts:
  every page file of the item is an image; a page file is undersized when a
  dimension of its image is below the threshold; the directory of the item holds
  nothing but page files; no directory is also a file. \<open>no_artifact\<close> is the state
  of the disk behind a removal: the directory is gone and nothing lies in it.
\<close>

definition is_image :: "state \<Rightarrow> string \<Rightarrow> bool" where
  "is_image s p = (case map_of (files s) (norm_path p) of Some (Img wd ht) \<Rightarrow> True | _ \<Rightarrow> False)"

definition undersized :: "state \<Rightarrow> string \<Rightarrow> bool" where
  "undersized s p =
     (case map_of (files s) (norm_path p) of
        Some (Img wd ht) \<Rightarrow> wd < FAIL_THRESHOLD \<or> ht < FAIL_THRESHOLD
      | _ \<Rightarrow> False)"

definition pages_are_images :: "state \<Rightarrow> string \<Rightarrow> nat \<Rightarrow> bool" where
  "pages_are_images s folder n = list_all (\<lambda>k. is_image s (page_file folder k)) [1..<Suc n]"

definition some_undersized :: "state \<Rightarrow> string \<Rightarrow> nat \<Rightarrow> bool" where
  "some_undersized s folder n = list_ex (\<lambda>k. undersized s (page_file folder k)) [1..<Suc n]"

definition page_places :: "string \<Rightarrow> nat \<Rightarrow> string list list" where
  "page_places folder n = map (\<lambda>k. norm_path (page_file folder k)) [1..<Suc n]"

definition only_pages :: "state \<Rightarrow> string \<Rightarrow> nat \<Rightarrow> bool" where
  "only_pages s folder n =
     list_all (\<lambda>q. \<not> inside (norm_path folder) q \<or> q \<in> set (page_places folder n))
       (map fst (files s) @ dirs s)"

definition dirs_not_files :: "state \<Rightarrow> bool" where
  "dirs_not_files s = list_all (\<lambda>q. map_of (files s) q = None) (dirs s)"

definition no_artifact :: "state \<Rightarrow> string \<Rightarrow> bool" where
  "no_artifact s folder =
     (norm_path folder \<notin> set (dirs s)
      \<and> list_all (\<lambda>q. \<not> inside (norm_path folder) q) (map fst (files s) @ dirs s))"

text \<open>The members of the archive of an item: the page files under their names.\<close>

definition page_members :: "state \<Rightarrow> string \<Rightarrow> nat \<Rightarrow> (string \<times> content) list" where
  "page_members s folder n =
     map (\<lambda>k. (str_nat k @ ''.png'', the (map_of (files s) (norm_path (page_file folder k)))))
       [1..<Suc n]"

text \<open>
  A name that is one component of a path: not empty, not \<^verbatim>\<open>.\<close> or \<^verbatim>\<open>..\<close>, and
  without a separator.
\<close>

definition proper_name :: "string \<Rightarrow> bool" where
  "proper_name c = (c \<noteq> [] \<and> c \<noteq> ''.'' \<and> c \<noteq> ''..'' \<and> CHR ''/'' \<notin> set c)"

text \<open>
  The place of the entries of a directory named \<open>a\<close>: the place of \<open>a\<close> itself, and
  the root for the empty name, since \<^verbatim>\<open>os.sep.join\<close> then gives an absolute path.
\<close>

definition dir_of :: "string \<Rightarrow> string list" where
  "dir_of a = foldl step_path (if a = [] \<or> prefix ''/'' a then [''/''] else []) (split_path [] a)"

text \<open>
  Example states of the disk for the item \<^verbatim>\<open>x\<close>: with packaging enabled and two
  valid pages; and with an undersized page from an earlier run beside a file that
  is not a page.
\<close>

definition cfg_pack :: config where
  "cfg_pack = cfg0\<lparr>pack := True\<rparr>"

definition s_full :: state where
  "s_full = s0\<lparr>dirs := [[''manga''], [''manga'', ''x'']],
                files := [([''manga'', ''x'', ''1.png''], Img 1200 1700),
                          ([''manga'', ''x'', ''2.png''], Img 1100 1600)]\<rparr>"

definition s_stray :: state where
  "s_stray = s0\<lparr>dirs := [[''manga''], [''manga'', ''x'']],
                 files := [([''manga'', ''x'', ''1.png''], Img 800 1200),
                           ([''manga'', ''x'', ''cover.jpg''], Other)]\<rparr>"

section \<open>Pages that are already on disk\<close>

text \<open>
  \<open>touches url folder k e\<close>: the event \<open>e\<close> fetches the reader page of page \<open>k\<close> of
  the item \<open>url\<close>, or captures it into its file in \<open>folder\<close>.
\<close>

fun touches :: "string \<Rightarrow> string \<Rightarrow> nat \<Rightarrow> event \<Rightarrow> bool" where
  "touches url folder k (Get u) = (u = url @ ''/read/page/'' @ str_nat k)"
| "touches url folder k (Screenshot p) = (p = page_file folder k)"
| "touches url folder k e = False"

text \<open>
  \<open>left_alone url folder k s s'\<close>: from \<open>s\<close> to \<open>s'\<close> the history grew by events none
  of which touches page \<open>k\<close>, and the file of the page is what it was.
\<close>

definition left_alone :: "string \<Rightarrow> string \<Rightarrow> nat \<Rightarrow> state \<Rightarrow> state \<Rightarrow> bool" where
  "left_alone url folder k s s' =
     (\<exists>evs. trace s' = trace s @ evs
        \<and> list_all (\<lambda>e. \<not> touches url folder k e) evs
        \<and> map_of (files s') (norm_path (page_file folder k))
            = map_of (files s) (norm_path (page_file folder k)))"

text \<open>
  An item of two pages whose first page is on disk from an earlier run; the site
  has no reader page for it.
\<close>

definition world_pair :: world where
  "world_pair =
     \<lparr>site = (\<lambda>u. if u = ''https://site/x'' then index_page 2
                   else if u = ''https://site/x/read/page/2'' then reader_page 1200 1700
                   else empty_page),
      render = (\<lambda>u wh. wh), chrome = (0, 0)\<rparr>"

definition s_part :: state where
  "s_part = s0\<lparr>dirs := [[''manga''], [''manga'', ''x'']],
                files := [([''manga'', ''x'', ''1.png''], Img 1200 1700)]\<rparr>"

section \<open>Properties of canonical identifiers\<close>


lemma read_match_None: "\<not> prefix ''/read'' s \<Longrightarrow> read_match s = None"
  by (simp add: read_match_def)

lemma no_straddle:
  assumes np: "\<not> prefix ''/read'' q" and ne: "q \<noteq> []" and s: "s = [] \<or> hd s = CHR ''/''"
  shows "\<not> prefix ''/read'' (q @ s)"
proof
  assume pr: "prefix ''/read'' (q @ s)"
  from pr np obtain us where us: "''/read'' = q @ us" "prefix us s"
    by (auto simp: prefix_append)
  from us(1) np have "us \<noteq> []" by auto
  then obtain u us' where u: "us = u # us'" by (cases us) auto
  with us(2) s have "u = CHR ''/''" by (cases s) auto
  with us(1) u np ne show False
    by (auto simp: Cons_eq_append_conv)
qed

lemma sanitize_url_fixed: "\<not> has_read p \<Longrightarrow> sanitize_url p = p"
  by (induction p) (auto simp: read_match_def Let_def)

lemma sanitize_url_append:
  "\<not> has_read p \<Longrightarrow> s = [] \<or> hd s = CHR ''/'' \<Longrightarrow> sanitize_url (p @ s) = p @ sanitize_url s"
proof (induction p)
  case Nil
  then show ?case by simp
next
  case (Cons c p)
  from Cons.prems have np: "\<not> prefix ''/read'' (c # p)" and nh: "\<not> has_read p" by auto
  from no_straddle[OF np _ Cons.prems(2)] have "read_match ((c # p) @ s) = None"
    by (intro read_match_None) simp
  then show ?case using Cons.IH[OF nh Cons.prems(2)] by simp
qed

lemma takeWhile_no_LF: "LF \<notin> set n \<Longrightarrow> takeWhile (\<lambda>x. x \<noteq> LF) n = n"
  by (induction n) auto

lemma dropWhile_no_LF: "LF \<notin> set n \<Longrightarrow> dropWhile (\<lambda>x. x \<noteq> LF) n = []"
  by (induction n) auto

lemma sanitize_url_read: "\<not> has_read p \<Longrightarrow> sanitize_url (p @ ''/read'') = p"
  using sanitize_url_append[of p "''/read''"] by (simp add: read_match_def)

lemma sanitize_url_page:
  "\<not> has_read p \<Longrightarrow> n \<noteq> [] \<Longrightarrow> LF \<notin> set n \<Longrightarrow> sanitize_url (p @ ''/read/page/'' @ n) = p"
  using sanitize_url_append[of p "''/read/page/'' @ n"]
  by (simp add: read_match_def takeWhile_no_LF dropWhile_no_LF)

text \<open>
  The substitution is not idempotent on every string: deleting one match can join
  the characters around it into a new \<^verbatim>\<open>/read\<close>.
\<close>

theorem sanitize_url_not_idempotent:
  "sanitize_url (sanitize_url ''https://site/x/re/readad'') \<noteq> sanitize_url ''https://site/x/re/readad''"
  by (simp add: read_match_def LF_def)

text \<open>
  C4, as amended: for a string \<open>p\<close> in which \<^verbatim>\<open>/read\<close> does not occur, \<open>sanitize_url\<close>
  maps \<open>p\<close>, \<open>p\<close> with the reader suffix and \<open>p\<close> with the reader suffix and a page
  number to \<open>p\<close>, and applying it again changes nothing; the address
  \<^verbatim>\<open>https://site/x/read/page/3\<close> becomes \<^verbatim>\<open>https://site/x\<close>.
\<close>

theorem sanitize_url_strips_suffix:
  assumes "\<not> has_read p" and "n \<noteq> []" and "LF \<notin> set n"
    and "x = p \<or> x = p @ ''/read'' \<or> x = p @ ''/read/page/'' @ n"
  shows "sanitize_url x = p \<and> sanitize_url (sanitize_url x) = sanitize_url x
    \<and> sanitize_url ''https://site/x/read/page/3'' = ''https://site/x''"
proof -
  have "sanitize_url x = p"
    using assms sanitize_url_fixed sanitize_url_read sanitize_url_page by auto
  moreover have "sanitize_url p = p" using assms(1) by (rule sanitize_url_fixed)
  moreover have "sanitize_url ''https://site/x/read/page/3'' = ''https://site/x''"
    by (simp add: read_match_def LF_def)
  ultimately show ?thesis by simp
qed

theorem sanitize_url_strips_suffix_witness:
  "sanitize_url ''https://www.fakku.net/hentai/abc/read/page/12'' = ''https://www.fakku.net/hentai/abc''
   \<and> sanitize_url (sanitize_url ''https://www.fakku.net/hentai/abc/read/page/12'')
       = sanitize_url ''https://www.fakku.net/hentai/abc/read/page/12''"
proof -
  have h: "\<not> has_read ''https://www.fakku.net/hentai/abc''" "''12'' \<noteq> []" "LF \<notin> set ''12''"
    by (simp_all add: LF_def)
  have x: "''https://www.fakku.net/hentai/abc/read/page/12'' = ''https://www.fakku.net/hentai/abc''
      \<or> ''https://www.fakku.net/hentai/abc/read/page/12'' = ''https://www.fakku.net/hentai/abc'' @ ''/read''
      \<or> ''https://www.fakku.net/hentai/abc/read/page/12'' = ''https://www.fakku.net/hentai/abc'' @ ''/read/page/'' @ ''12''"
    by simp
  from sanitize_url_strips_suffix[OF h x] show ?thesis by blast
qed

subsection \<open>The work queue\<close>

lemma set_collect_urls:
  "set (collect_urls dn fl urls ls) =
     set urls \<union> ((\<lambda>l. sanitize_url (strip_newlines l)) ` set ls - set dn - set fl)"
  by (induction ls arbitrary: urls) (auto simp: Let_def)

lemma distinct_collect_urls: "distinct urls \<Longrightarrow> distinct (collect_urls dn fl urls ls)"
  by (induction ls arbitrary: urls) (auto simp: Let_def)

text \<open>
  C5: whatever the three list files hold, the work queue has no entry twice and
  no entry that is a line of the completed or of the failed file; files that hold
  the same lines in another order give a queue with the same entries.
\<close>

theorem get_urls_list_excludes:
  assumes "mset (text_lines [] d') = mset (text_lines [] d)"
    and "mset (text_lines [] f') = mset (text_lines [] f)"
    and "mset (text_lines [] u') = mset (text_lines [] u)"
  shows "\<exists>q q'. get_urls_list (Some d) (Some f) (Some u) = Inr q
      \<and> get_urls_list (Some d') (Some f') (Some u') = Inr q'
      \<and> distinct q
      \<and> set q \<inter> (strip_newlines ` set (text_lines [] d) \<union> strip_newlines ` set (text_lines [] f)) = {}
      \<and> set q' = set q"
proof -
  from assms have "set (text_lines [] d') = set (text_lines [] d)"
    "set (text_lines [] f') = set (text_lines [] f)" "set (text_lines [] u') = set (text_lines [] u)"
    by (metis set_mset_mset)+
  then show ?thesis
    by (auto simp: get_urls_list_def set_collect_urls distinct_collect_urls)
qed

theorem get_urls_list_excludes_witness:
  "\<exists>q q'. get_urls_list (Some (unlines [''b'', ''d''])) (Some (unlines [''e''])) (Some (unlines [''a'', ''b'', ''c/read'', ''a/read/page/2'', ''e''])) = Inr q
      \<and> get_urls_list (Some (unlines [''d'', ''b''])) (Some (unlines [''e''])) (Some (unlines [''e'', ''c/read'', ''a/read/page/2'', ''b'', ''a''])) = Inr q'
      \<and> distinct q
      \<and> set q \<inter> (strip_newlines ` set (text_lines [] (unlines [''b'', ''d''])) \<union> strip_newlines ` set (text_lines [] (unlines [''e'']))) = {}
      \<and> set q' = set q"
  by (rule get_urls_list_excludes) (simp_all add: unlines_def LF_def CR_def)

text \<open>
  C10: the queue holds exactly the canonical forms of the requested lines that
  are not, letter for letter, a line of the completed or of the failed file. So a
  line of one of these files that is not in canonical form does not exclude its
  canonical form: when that form is requested and is not itself a line of the two
  files, it is queued again.
\<close>

theorem get_urls_list_literal:
  assumes "l \<in> set (text_lines [] d) \<union> set (text_lines [] f)"
    and "sanitize_url (strip_newlines l) \<noteq> strip_newlines l"
    and "r \<in> set (text_lines [] u)"
    and "sanitize_url (strip_newlines r) = sanitize_url (strip_newlines l)"
    and "sanitize_url (strip_newlines l) \<notin> strip_newlines ` (set (text_lines [] d) \<union> set (text_lines [] f))"
  shows "\<exists>q. get_urls_list (Some d) (Some f) (Some u) = Inr q
      \<and> sanitize_url (strip_newlines l) \<in> set q
      \<and> set q = {x \<in> (\<lambda>r. sanitize_url (strip_newlines r)) ` set (text_lines [] u).
                   x \<notin> strip_newlines ` set (text_lines [] d) \<and> x \<notin> strip_newlines ` set (text_lines [] f)}"
proof -
  let ?q = "collect_urls (map strip_newlines (text_lines [] d))
              (map strip_newlines (text_lines [] f)) [] (text_lines [] u)"
  have q: "get_urls_list (Some d) (Some f) (Some u) = Inr ?q"
    by (simp add: get_urls_list_def)
  have s: "set ?q = {x \<in> (\<lambda>r. sanitize_url (strip_newlines r)) ` set (text_lines [] u).
                   x \<notin> strip_newlines ` set (text_lines [] d) \<and> x \<notin> strip_newlines ` set (text_lines [] f)}"
    by (auto simp: set_collect_urls)
  from assms(3,4) have "sanitize_url (strip_newlines l) \<in> (\<lambda>r. sanitize_url (strip_newlines r)) ` set (text_lines [] u)"
    by (metis imageI)
  with assms(5) s have "sanitize_url (strip_newlines l) \<in> set ?q" by blast
  with q s show ?thesis by blast
qed

theorem get_urls_list_literal_witness:
  "\<exists>q. get_urls_list (Some (unlines [''https://site/x/read/page/3''])) (Some []) (Some (unlines [''https://site/x''])) = Inr q
      \<and> ''https://site/x'' \<in> set q"
proof -
  let ?l = "''https://site/x/read/page/3'' @ [LF]" and ?r = "''https://site/x'' @ [LF]"
  let ?d = "unlines [''https://site/x/read/page/3'']" and ?u = "unlines [''https://site/x'']"
  have c: "sanitize_url (strip_newlines ?l) = ''https://site/x''"
    by (simp add: strip_newlines_def read_match_def LF_def)
  have h1: "?l \<in> set (text_lines [] ?d) \<union> set (text_lines [] [])"
    by (simp add: unlines_def LF_def CR_def)
  have h2: "sanitize_url (strip_newlines ?l) \<noteq> strip_newlines ?l"
    by (simp add: strip_newlines_def read_match_def LF_def)
  have h3: "?r \<in> set (text_lines [] ?u)"
    by (simp add: unlines_def LF_def CR_def)
  have h4: "sanitize_url (strip_newlines ?r) = sanitize_url (strip_newlines ?l)"
    by (simp add: strip_newlines_def read_match_def LF_def)
  have h5: "sanitize_url (strip_newlines ?l) \<notin> strip_newlines ` (set (text_lines [] ?d) \<union> set (text_lines [] []))"
    by (simp add: unlines_def strip_newlines_def read_match_def LF_def CR_def)
  have "\<exists>q. get_urls_list (Some ?d) (Some []) (Some ?u) = Inr q
      \<and> sanitize_url (strip_newlines ?l) \<in> set q
      \<and> set q = {x \<in> (\<lambda>r. sanitize_url (strip_newlines r)) ` set (text_lines [] ?u).
                   x \<notin> strip_newlines ` set (text_lines [] ?d) \<and> x \<notin> strip_newlines ` set (text_lines [] [])}"
    by (rule get_urls_list_literal[OF h1 h2 h3 h4 h5])
  then obtain q where q1: "get_urls_list (Some ?d) (Some []) (Some ?u) = Inr q"
    and q2: "sanitize_url (strip_newlines ?l) \<in> set q"
    by (elim exE conjE)
  from q2 have "''https://site/x'' \<in> set q" by (simp only: c)
  with q1 show ?thesis by (intro exI conjI)
qed

section \<open>Properties of the capture pipeline\<close>

lemma str_nat_digit: "n < 10 \<Longrightarrow> str_nat n = [digit_char n]"
  by (simp add: str_nat.simps)

declare sanitize_url.simps [simp del]

lemma sanitize_url_example [simp]: "sanitize_url ''https://site/y/read/page/2'' = ''https://site/y''"
  by (simp add: sanitize_url.simps read_match_def LF_def)


text \<open>
  C9, as amended: on a reader page that has at least one layer, when the script
  that reads the size of the content canvas faults, or, in viewport mode, a
  script of the viewport resize faults, the page loop prints the message, leaves
  the window as it is, resizes nothing, removes the top layer, takes the
  screenshot of the page at the current window size and goes on with the next
  page.
\<close>

theorem capture_page_script_fault:
  assumes nofile: "\<not> isfile s (page_file manga_folder page_num)"
    and pg: "pg = site w (url @ ''/read/page/'' @ str_nat page_num)"
    and frame: "iframe_present pg" and view: "page_view_present pg"
    and fault: "canvas_size pg (int (layers pg) - 2) = None \<or> (viewport cfg \<and> metrics_fault pg)"
    and layer: "0 < layers pg"
  shows "\<exists>s'. fetch_pages cfg w url manga_folder delay (page_num # rest) s
          = fetch_pages cfg w url manga_folder False rest s'
      \<and> window s' = window s
      \<and> out s' = out s @ [JsErrorMsg]
      \<and> trace s' = trace s @ [Get (url @ ''/read/page/'' @ str_nat page_num),
            Sleep (if delay then 3 else 1), SwitchFrame, Located PageView,
            RemoveLayer (int (layers pg) - 1), Screenshot (page_file manga_folder page_num)]
      \<and> (parent_is_dir s (page_file manga_folder page_num) \<and> \<not> isdir s (page_file manga_folder page_num)
           \<longrightarrow> map_of (files s') (norm_path (page_file manga_folder page_num))
               = Some (Img (fst (render w (url @ ''/read/page/'' @ str_nat page_num) (window s)))
                           (snd (render w (url @ ''/read/page/'' @ str_nat page_num) (window s)))))"
proof -
  let ?loc = "url @ ''/read/page/'' @ str_nat page_num"
  let ?s1 = "emit (Located PageView) (emit SwitchFrame (emit (Sleep (if delay then 3 else 1)) (browser_get ?loc s)))"
  have loc: "location ?s1 = ?loc" by (simp add: emit_def browser_get_def)
  have w: "waiting_loading_page w True delay (browser_get ?loc s) = (Inr (), ?s1)"
    using frame view pg by (simp add: waiting_loading_page_def Let_def browser_get_def emit_def)
  have r: "resize_to_canvas cfg w (int (layers pg)) ?s1 = say JsErrorMsg ?s1"
    using fault pg loc
    by (auto simp: resize_to_canvas_def set_viewport_size_def split: option.splits)
  let ?s' = "save_screenshot w (page_file manga_folder page_num) (emit (RemoveLayer (int (layers pg) - 1)) (say JsErrorMsg ?s1))"
  have c: "capture_page cfg w (page_file manga_folder page_num) ?s1 = (Inr (), ?s')"
    using layer r pg loc by (simp add: capture_page_def Let_def)
  have "fetch_pages cfg w url manga_folder delay (page_num # rest) s
          = fetch_pages cfg w url manga_folder False rest ?s'"
    using nofile w c by (simp add: Let_def)
  moreover have "window ?s' = window s" "out ?s' = out s @ [JsErrorMsg]"
    by (simp_all add: save_screenshot_def Let_def emit_def say_def browser_get_def)
  moreover have "trace ?s' = trace s @ [Get ?loc,
            Sleep (if delay then 3 else 1), SwitchFrame, Located PageView,
            RemoveLayer (int (layers pg) - 1), Screenshot (page_file manga_folder page_num)]"
    by (simp add: save_screenshot_def Let_def emit_def say_def browser_get_def)
  moreover have "parent_is_dir s (page_file manga_folder page_num) \<and> \<not> isdir s (page_file manga_folder page_num)
           \<longrightarrow> map_of (files ?s') (norm_path (page_file manga_folder page_num))
               = Some (Img (fst (render w ?loc (window s))) (snd (render w ?loc (window s))))"
    by (simp add: save_screenshot_def Let_def emit_def say_def browser_get_def parent_is_dir_def
        isdir_def write_file_def)
  ultimately show ?thesis by blast
qed

text \<open>
  C6: an item whose index page has loaded and shows no page-count marker is
  written to the failed list; no file and no directory is created, no reader
  page is contacted, and the main loop goes on with the next url.
\<close>

theorem page_count_missing:
  assumes "\<not> blank url"
    and "icon_present (site w (sanitize_url url))"
    and "get_page_count (page_source (site w (sanitize_url url))) = None"
  shows "\<exists>s'. load_loop cfg w urls_processed (url # rest) s = load_loop cfg w urls_processed rest s'
      \<and> fail_txt s' = fail_txt s @ sanitize_url url @ [LF]
      \<and> done_txt s' = done_txt s
      \<and> files s' = files s \<and> dirs s' = dirs s
      \<and> trace s' = trace s @ [Get (sanitize_url url), Sleep 1, SwitchDefault, Located IconLink]"
proof -
  let ?u = "sanitize_url url"
  let ?s1 = "emit (Located IconLink) (emit SwitchDefault (emit (Sleep 1) (browser_get ?u s)))"
  have w: "waiting_loading_page w False False (browser_get ?u s) = (Inr (), ?s1)"
    using assms(2) by (simp add: waiting_loading_page_def Let_def browser_get_def emit_def)
  have loc: "location ?s1 = ?u" by (simp add: emit_def browser_get_def)
  have p: "process_item cfg w url s = (Inr False, add_failed ?u ?s1)"
    using w assms(3) loc by (simp add: process_item_def then_do_def Let_def)
  have "load_loop cfg w urls_processed (url # rest) s = load_loop cfg w urls_processed rest (add_failed ?u ?s1)"
    using assms(1) p by simp
  moreover have "fail_txt (add_failed ?u ?s1) = fail_txt s @ ?u @ [LF]" "done_txt (add_failed ?u ?s1) = done_txt s"
    "files (add_failed ?u ?s1) = files s" "dirs (add_failed ?u ?s1) = dirs s"
    "trace (add_failed ?u ?s1) = trace s @ [Get ?u, Sleep 1, SwitchDefault, Located IconLink]"
    by (simp_all add: add_failed_def say_def emit_def browser_get_def)
  ultimately show ?thesis by blast
qed

lemma example_places:
  "norm_path ''manga'' = [''manga'']" "norm_path ''manga/x'' = [''manga'', ''x'']"
  "norm_path ''manga/x/1.png'' = [''manga'', ''x'', ''1.png'']"
  "norm_path ''manga/x.cbz'' = [''manga'', ''x.cbz'']"
  by (simp_all add: norm_path_def step_path_def)

theorem capture_page_script_fault_witness:
  "\<exists>s'. fetch_pages cfg0 world_unready ''https://site/x'' ''manga/x'' True [Suc 0]
            (s0\<lparr>dirs := [[''manga''], [''manga'', ''x'']]\<rparr>)
          = (Inr (), s')
      \<and> window s' = (1440, 2560) \<and> out s' = [JsErrorMsg]
      \<and> map_of (files s') [''manga'', ''x'', ''1.png''] = Some (Img 1440 2560)"
proof -
  let ?s = "s0\<lparr>dirs := [[''manga''], [''manga'', ''x'']]\<rparr>"
  let ?pg = "(reader_page 1200 1700)\<lparr>layers := 1, canvases := []\<rparr>"
  have pf: "page_file ''manga/x'' (Suc 0) = ''manga/x/1.png''"
    by (simp add: page_file_def path_join_def str_nat_digit digit_char_def)
  have h1: "\<not> isfile ?s (page_file ''manga/x'' (Suc 0))" by (simp add: isfile_def s0_def)
  have h2: "?pg = site world_unready (''https://site/x'' @ ''/read/page/'' @ str_nat (Suc 0))"
    by (simp add: world_unready_def str_nat_digit digit_char_def)
  have h3: "iframe_present ?pg" "page_view_present ?pg" by (simp_all add: reader_page_def empty_page_def)
  have h4: "canvas_size ?pg (int (layers ?pg) - 2) = None \<or> (viewport cfg0 \<and> metrics_fault ?pg)"
    by (simp add: canvas_size_def)
  have h5: "0 < layers ?pg" by simp
  have h6: "parent_is_dir ?s (page_file ''manga/x'' (Suc 0)) \<and> \<not> isdir ?s (page_file ''manga/x'' (Suc 0))"
    by (simp add: pf parent_is_dir_def isdir_def example_places s0_def)
  from capture_page_script_fault[OF h1 h2 h3 h4 h5, where delay = True and rest = "[]"]
  obtain s' where e: "fetch_pages cfg0 world_unready ''https://site/x'' ''manga/x'' True [Suc 0] ?s
          = fetch_pages cfg0 world_unready ''https://site/x'' ''manga/x'' False [] s'"
    and w: "window s' = window ?s" and o: "out s' = out ?s @ [JsErrorMsg]"
    and f: "parent_is_dir ?s (page_file ''manga/x'' (Suc 0)) \<and> \<not> isdir ?s (page_file ''manga/x'' (Suc 0))
           \<longrightarrow> map_of (files s') (norm_path (page_file ''manga/x'' (Suc 0)))
               = Some (Img (fst (render world_unready (''https://site/x'' @ ''/read/page/'' @ str_nat (Suc 0)) (window ?s)))
                           (snd (render world_unready (''https://site/x'' @ ''/read/page/'' @ str_nat (Suc 0)) (window ?s))))"
    by (elim exE conjE)
  from e have "fetch_pages cfg0 world_unready ''https://site/x'' ''manga/x'' True [Suc 0] ?s = (Inr (), s')"
    by (simp only: fetch_pages.simps(1))
  moreover from w have "window s' = (1440, 2560)" by (simp add: s0_def)
  moreover from o have "out s' = [JsErrorMsg]" by (simp add: s0_def)
  moreover from f h6 have "map_of (files s') (norm_path (page_file ''manga/x'' (Suc 0)))
               = Some (Img (fst (render world_unready (''https://site/x'' @ ''/read/page/'' @ str_nat (Suc 0)) (window ?s)))
                           (snd (render world_unready (''https://site/x'' @ ''/read/page/'' @ str_nat (Suc 0)) (window ?s))))"
    by (rule mp)
  then have "map_of (files s') [''manga'', ''x'', ''1.png''] = Some (Img 1440 2560)"
    by (simp add: pf example_places world_unready_def s0_def)
  ultimately show ?thesis by (intro exI conjI)
qed

text \<open>
  On a reader page without any layer the fault of the canvas script is caught and
  the message is printed, but the removal of the top layer, which is outside the
  \<^verbatim>\<open>try\<close> block, faults too: the run ends with \<^verbatim>\<open>JavascriptException\<close>, no
  screenshot is taken and the item is recorded in neither list.
\<close>

theorem capture_page_no_layer_aborts:
  "canvas_size (site world_no_layer ''https://site/x/read/page/1'')
       (int (layers (site world_no_layer ''https://site/x/read/page/1'')) - 2) = None
   \<and> fst (load_all cfg0 world_no_layer [''https://site/x'', ''https://site/y''] s0) = Inl JavascriptException
   \<and> out (snd (load_all cfg0 world_no_layer [''https://site/x'', ''https://site/y''] s0))
        = [DownloadingMsg ''x'', JsErrorMsg]
   \<and> files (snd (load_all cfg0 world_no_layer [''https://site/x'', ''https://site/y''] s0)) = []
   \<and> done_txt (snd (load_all cfg0 world_no_layer [''https://site/x'', ''https://site/y''] s0)) = []
   \<and> fail_txt (snd (load_all cfg0 world_no_layer [''https://site/x'', ''https://site/y''] s0)) = []"
  by code_simp

theorem page_count_missing_witness:
  "\<exists>s'. load_loop cfg0 world_unready 0 [''https://site/y/read/page/2''] s0 = (Inr (), s')
     \<and> fail_txt s' = ''https://site/y'' @ [LF] \<and> done_txt s' = [] \<and> files s' = [] \<and> dirs s' = [[''manga'']]"
proof -
  have c: "sanitize_url ''https://site/y/read/page/2'' = ''https://site/y''"
    by simp
  have h1: "\<not> blank ''https://site/y/read/page/2''" by (simp add: blank_def is_space_def)
  have h2: "icon_present (site world_unready (sanitize_url ''https://site/y/read/page/2''))"
    by (simp add: c world_unready_def)
  have h3: "get_page_count (page_source (site world_unready (sanitize_url ''https://site/y/read/page/2''))) = None"
    by (simp add: c world_unready_def empty_page_def)
  from page_count_missing[OF h1 h2 h3, of cfg0 0 "[]" s0]
  obtain s' where e: "load_loop cfg0 world_unready 0 [''https://site/y/read/page/2''] s0
        = load_loop cfg0 world_unready 0 [] s'"
    and f: "fail_txt s' = fail_txt s0 @ sanitize_url ''https://site/y/read/page/2'' @ [LF]"
    and d: "done_txt s' = done_txt s0" and fs: "files s' = files s0" and ds: "dirs s' = dirs s0"
    by (elim exE conjE)
  from e have "load_loop cfg0 world_unready 0 [''https://site/y/read/page/2''] s0 = (Inr (), s')"
    by (simp only: load_loop.simps(1))
  moreover from f have "fail_txt s' = ''https://site/y'' @ [LF]" by (simp add: s0_def)
  moreover from d fs ds have "done_txt s' = []" "files s' = []" "dirs s' = [[''manga'']]"
    by (simp_all add: s0_def)
  ultimately show ?thesis by (intro exI conjI)
qed

section \<open>Properties of collection expansion\<close>

text \<open>The fields of the state behind the elementary steps.\<close>

lemma emit_fields [simp]:
  "location (emit e s) = location s" "window (emit e s) = window s" "files (emit e s) = files s"
  "dirs (emit e s) = dirs s" "done_txt (emit e s) = done_txt s" "fail_txt (emit e s) = fail_txt s"
  "urls_txt (emit e s) = urls_txt s" "out (emit e s) = out s" "trace (emit e s) = trace s @ [e]"
  by (simp_all add: emit_def)

lemma say_fields [simp]:
  "location (say m s) = location s" "window (say m s) = window s" "files (say m s) = files s"
  "dirs (say m s) = dirs s" "done_txt (say m s) = done_txt s" "fail_txt (say m s) = fail_txt s"
  "urls_txt (say m s) = urls_txt s" "out (say m s) = out s @ [m]" "trace (say m s) = trace s"
  by (simp_all add: say_def)

lemma browser_get_fields [simp]:
  "location (browser_get u s) = u" "window (browser_get u s) = window s"
  "files (browser_get u s) = files s" "dirs (browser_get u s) = dirs s"
  "done_txt (browser_get u s) = done_txt s" "fail_txt (browser_get u s) = fail_txt s"
  "urls_txt (browser_get u s) = urls_txt s" "out (browser_get u s) = out s"
  "trace (browser_get u s) = trace s @ [Get u]"
  by (simp_all add: browser_get_def)

lemma write_comics_links:
  "write_comics (map Some hs) s
     = (Inr (), s\<lparr>urls_txt := urls_txt s @ unlines (map (\<lambda>h. BASE_URL @ h) hs)\<rparr>)"
  by (induction hs arbitrary: s) (simp_all add: unlines_def)

lemma fold_max_ge: "fold max xs (a::nat) = Max (insert a (set xs))"
proof (induction xs arbitrary: a)
  case Nil
  then show ?case by simp
next
  case (Cons x xs)
  have "Max (insert a (insert x (set xs))) = max a (Max (insert x (set xs)))"
    by (rule Max_insert) simp_all
  also have "\<dots> = max a (max x (Max (insert x (set xs))))" by simp
  finally have "Max (insert a (insert x (set xs))) = Max (insert (max x a) (set xs))"
    by (cases "set xs = {}") (auto simp: max.commute max.left_commute)
  with Cons show ?case by simp
qed

lemma list_max_Max: "xs \<noteq> [] \<Longrightarrow> list_max xs = Max (set xs)"
  by (cases xs) (simp_all add: fold_max_ge)

lemma waiting_index_ok:
  "icon_present (site w u) \<Longrightarrow>
   waiting_loading_page w False False (browser_get u s)
     = (Inr (), emit (Located IconLink) (emit SwitchDefault (emit (Sleep 1) (browser_get u s))))"
  by (simp add: waiting_loading_page_def Let_def)

lemma upt_1_4: "[Suc 0..<4] = [Suc 0, 2, 3]"
  by (simp add: upt_rec)

lemma collection_run:
  assumes links: "set (List.map_filter page_link_number (anchors (site w c))) = {1, 2, 3}"
    and ready: "icon_present (site w c)" "icon_present (site w (c @ ''/page/2''))"
      "icon_present (site w (c @ ''/page/3''))"
    and entries: "comics (site w c) = map Some h1" "comics (site w (c @ ''/page/2'')) = map Some h2"
      "comics (site w (c @ ''/page/3'')) = map Some h3"
    and four: "length h1 = 4" "length h2 = 4" "length h3 = 4"
  shows "\<exists>s'. load_urls_from_collection w c s = (Inr (), s')
      \<and> urls_txt s' = urls_txt s @ unlines (map (\<lambda>h. BASE_URL @ h) (h1 @ h2 @ h3))
      \<and> length (map (\<lambda>h. BASE_URL @ h) (h1 @ h2 @ h3)) = 12"
proof -
  have ne: "List.map_filter page_link_number (anchors (site w c)) \<noteq> []"
    using links by auto
  have cnt: "get_page_count_in_collection (site w c) = 3"
    using ne links by (simp add: get_page_count_in_collection_def Let_def list_max_Max)
  have two: "str_nat 2 = ''2''" and three: "str_nat 3 = ''3''"
    by (simp_all add: str_nat.simps digit_char_def)
  let ?a = "\<lambda>u s. emit (Located IconLink) (emit SwitchDefault (emit (Sleep 1) (browser_get u s)))"
  let ?w = "\<lambda>hs s. s\<lparr>urls_txt := urls_txt s @ unlines (map (\<lambda>h. BASE_URL @ h) hs)\<rparr>"
  let ?s' = "?w h3 (?a (c @ ''/page/3'') (?w h2 (?a (c @ ''/page/2'') (?w h1 (?a c s)))))"
  have "load_urls_from_collection w c s = (Inr (), ?s')"
    unfolding load_urls_from_collection_def then_do_def
    by (simp add: waiting_index_ok ready entries cnt upt_1_4 two three write_comics_links
        del: upt_Suc)
  moreover have "urls_txt ?s' = urls_txt s @ unlines (map (\<lambda>h. BASE_URL @ h) (h1 @ h2 @ h3))"
    by (simp add: unlines_def)
  moreover have "length (map (\<lambda>h. BASE_URL @ h) (h1 @ h2 @ h3)) = 12"
    using four by simp
  ultimately show ?thesis by (intro exI conjI)
qed

text \<open>
  C3, as amended: for a collection whose pagination links name the pages 1 to 3,
  whose three listing pages load and hold four entries each, the expansion
  appends exactly twelve lines to the requested list, each the link of an entry
  behind the base address, in the order of the listing. Nothing removes an
  entry that is listed twice: it is appended twice.
\<close>

theorem collection_three_pages:
  assumes "set (List.map_filter page_link_number (anchors (site w c))) = {1, 2, 3}"
    and "icon_present (site w c)" "icon_present (site w (c @ ''/page/2''))"
      "icon_present (site w (c @ ''/page/3''))"
    and "comics (site w c) = map Some h1" "comics (site w (c @ ''/page/2'')) = map Some h2"
      "comics (site w (c @ ''/page/3'')) = map Some h3"
    and "length h1 = 4" "length h2 = 4" "length h3 = 4"
  shows "\<exists>s'. load_urls_from_collection w c s = (Inr (), s')
      \<and> urls_txt s' = urls_txt s @ unlines (map (\<lambda>h. BASE_URL @ h) (h1 @ h2 @ h3))
      \<and> length (map (\<lambda>h. BASE_URL @ h) (h1 @ h2 @ h3)) = 12"
  using assms by (rule collection_run)

lemma page_link_numbers:
  "page_link_number ''/collections/c/page/1'' = Some 1"
  "page_link_number ''/collections/c/page/2'' = Some 2"
  "page_link_number ''/collections/c/page/3'' = Some 3"
  "page_link_number ''/hentai/a'' = None" "page_link_number ''/hentai/b'' = None"
  "page_link_number ''/hentai/c'' = None" "page_link_number ''/hentai/d'' = None"
  by (simp_all add: page_link_match_def is_digit_def nat_of_digits_def digit_value_def)

lemma world_collection_facts:
  "set (List.map_filter page_link_number (anchors (site world_collection collection_url))) = {1, 2, 3}"
  "icon_present (site world_collection collection_url)"
  "icon_present (site world_collection (collection_url @ ''/page/2''))"
  "icon_present (site world_collection (collection_url @ ''/page/3''))"
  "comics (site world_collection collection_url) = map Some [''/hentai/a'', ''/hentai/b'', ''/hentai/c'', ''/hentai/d'']"
  "comics (site world_collection (collection_url @ ''/page/2'')) = map Some [''/hentai/d'', ''/hentai/e'', ''/hentai/f'', ''/hentai/g'']"
  "comics (site world_collection (collection_url @ ''/page/3'')) = map Some [''/hentai/h'', ''/hentai/i'', ''/hentai/j'', ''/hentai/k'']"
  by (simp_all add: world_collection_def collection_url_def listing_page_def List.map_filter_simps
      page_link_numbers empty_page_def del: page_link_number.simps)

theorem collection_three_pages_witness:
  "\<exists>s'. load_urls_from_collection world_collection collection_url s0 = (Inr (), s')
      \<and> urls_txt s' = urls_txt s0 @ unlines (map (\<lambda>h. BASE_URL @ h)
            ([''/hentai/a'', ''/hentai/b'', ''/hentai/c'', ''/hentai/d'']
             @ [''/hentai/d'', ''/hentai/e'', ''/hentai/f'', ''/hentai/g'']
             @ [''/hentai/h'', ''/hentai/i'', ''/hentai/j'', ''/hentai/k'']))
      \<and> length (map (\<lambda>h. BASE_URL @ h)
            ([''/hentai/a'', ''/hentai/b'', ''/hentai/c'', ''/hentai/d'']
             @ [''/hentai/d'', ''/hentai/e'', ''/hentai/f'', ''/hentai/g'']
             @ [''/hentai/h'', ''/hentai/i'', ''/hentai/j'', ''/hentai/k''])) = 12"
  by (rule collection_three_pages[OF world_collection_facts]) simp_all

text \<open>
  The entry listed on two pages is appended twice.
\<close>

theorem collection_appends_duplicate:
  "urls_txt (snd (load_urls_from_collection world_collection collection_url s0))
     = unlines (map (\<lambda>h. BASE_URL @ h)
         [''/hentai/a'', ''/hentai/b'', ''/hentai/c'', ''/hentai/d'',
          ''/hentai/d'', ''/hentai/e'', ''/hentai/f'', ''/hentai/g'',
          ''/hentai/h'', ''/hentai/i'', ''/hentai/j'', ''/hentai/k''])
   \<and> \<not> distinct (map (\<lambda>h. BASE_URL @ h)
         [''/hentai/a'', ''/hentai/b'', ''/hentai/c'', ''/hentai/d'',
          ''/hentai/d'', ''/hentai/e'', ''/hentai/f'', ''/hentai/g'',
          ''/hentai/h'', ''/hentai/i'', ''/hentai/j'', ''/hentai/k''])"
proof -
  from collection_run[OF world_collection_facts, of s0]
  obtain s' where r: "load_urls_from_collection world_collection collection_url s0 = (Inr (), s')"
    and u: "urls_txt s' = urls_txt s0 @ unlines (map (\<lambda>h. BASE_URL @ h)
            ([''/hentai/a'', ''/hentai/b'', ''/hentai/c'', ''/hentai/d'']
             @ [''/hentai/d'', ''/hentai/e'', ''/hentai/f'', ''/hentai/g'']
             @ [''/hentai/h'', ''/hentai/i'', ''/hentai/j'', ''/hentai/k'']))"
    by auto
  from r u show ?thesis by (simp add: s0_def)
qed

section \<open>Synchronisation failures end the run\<close>

text \<open>
  Every step of the pipeline either leaves the history free of fatal events, or
  ends with \<^verbatim>\<open>SystemExit\<close> right behind the one fatal event; the completed and the
  failed list only grow.
\<close>

lemma quiet_refl [simp]: "quiet s s"
  by (simp add: quiet_def)

lemma quiet_trans: "quiet s s1 \<Longrightarrow> quiet s1 s2 \<Longrightarrow> quiet s s2"
  unfolding quiet_def by (auto intro: prefix_order.trans)

lemma quiet_exits: "quiet s s1 \<Longrightarrow> exits s1 s2 \<Longrightarrow> exits s s2"
  unfolding quiet_def exits_def
  apply (elim conjE exE)
  subgoal for evs evs' e
    apply (intro conjI)
    apply (rule exI[of _ "evs @ evs'"], rule exI[of _ e])
      apply simp
     apply (erule (1) prefix_order.trans)
    apply (erule (1) prefix_order.trans)
    done
  done

lemma run_ok_step: "quiet s s1 \<Longrightarrow> run_ok s1 rs \<Longrightarrow> run_ok s rs"
  by (auto simp: run_ok_def intro: quiet_trans quiet_exits split: if_splits)

lemma run_ok_quiet: "r \<noteq> Inl SystemExit \<Longrightarrow> quiet s s' \<Longrightarrow> run_ok s (r, s')"
  by (simp add: run_ok_def)

lemma run_ok_Inr [simp]: "run_ok s (Inr a, s') = quiet s s'"
  by (simp add: run_ok_def)

lemma run_ok_Inl [simp]:
  "run_ok s (Inl e, s') = (if e = SystemExit then exits s s' else quiet s s')"
  by (simp add: run_ok_def)

declare upt_Suc [simp del]

lemma quiet_emit: "\<not> fatal e \<Longrightarrow> quiet s s' \<Longrightarrow> quiet s (emit e s')"
  unfolding quiet_def by auto

lemma quiet_say: "quiet s s' \<Longrightarrow> quiet s (say m s')"
  unfolding quiet_def by auto

lemma quiet_browser_get: "quiet s s' \<Longrightarrow> quiet s (browser_get u s')"
  unfolding quiet_def by auto

lemma set_window_size_fields [simp]:
  "location (set_window_size wh s) = location s" "window (set_window_size wh s) = wh"
  "files (set_window_size wh s) = files s" "dirs (set_window_size wh s) = dirs s"
  "done_txt (set_window_size wh s) = done_txt s" "fail_txt (set_window_size wh s) = fail_txt s"
  "urls_txt (set_window_size wh s) = urls_txt s" "out (set_window_size wh s) = out s"
  "trace (set_window_size wh s) = trace s @ [Resize (fst wh) (snd wh)]"
  by (simp_all add: set_window_size_def)

lemma quiet_set_window_size: "quiet s s' \<Longrightarrow> quiet s (set_window_size wh s')"
  unfolding quiet_def by auto

lemma quiet_add_done: "quiet s s' \<Longrightarrow> quiet s (add_done u s')"
  unfolding quiet_def add_done_def by auto

lemma quiet_add_failed: "quiet s s' \<Longrightarrow> quiet s (add_failed u s')"
  unfolding quiet_def add_failed_def by auto

lemma quiet_files: "quiet s s' \<Longrightarrow> quiet s (s'\<lparr>files := f\<rparr>)"
  unfolding quiet_def by auto

lemma quiet_dirs: "quiet s s' \<Longrightarrow> quiet s (s'\<lparr>dirs := f\<rparr>)"
  unfolding quiet_def by auto

lemmas quiet_intros = quiet_emit quiet_say quiet_browser_get quiet_set_window_size
  quiet_add_done quiet_add_failed quiet_files quiet_dirs

lemma exits_program_exit: "fatal e \<Longrightarrow> exits s (say m (say m' (emit e s)))"
  unfolding exits_def by (auto intro: exI[of _ "[]"])

lemma run_ok_waiting: "run_ok s (waiting_loading_page w is_reader_page should_add_delay s)"
proof -
  let ?s1 = "emit (Sleep (if is_reader_page \<and> should_add_delay then 3 else 1)) s"
  have q1: "quiet s ?s1" by (intro quiet_intros) simp_all
  let ?s2 = "emit (if is_reader_page then SwitchFrame else SwitchDefault) ?s1"
  have q2: "quiet s ?s2" by (intro quiet_intros) simp_all
  have e1: "exits ?s1 (say ProgramExitMsg (say IframeMsg (emit FrameMissing ?s1)))"
    by (rule exits_program_exit) simp
  have e2: "\<And>m. exits ?s2 (say ProgramExitMsg (say TimeoutMsg (emit (TimedOut m) ?s2)))"
    by (rule exits_program_exit) simp
  show ?thesis
    unfolding waiting_loading_page_def Let_def program_exit_def
    using quiet_exits[OF q1 e1] quiet_exits[OF q2 e2] q2
    by (auto simp: run_ok_def intro!: quiet_emit)
qed

lemma run_ok_then_do:
  assumes "run_ok s (m s)" and "\<And>a s1. m s = (Inr a, s1) \<Longrightarrow> run_ok s1 (f a s1)"
  shows "run_ok s (then_do m f s)"
proof (cases "m s")
  case (Pair r s1)
  show ?thesis
  proof (cases r)
    case (Inl e)
    with Pair assms(1) show ?thesis by (simp add: then_do_def)
  next
    case (Inr a)
    with Pair assms(1) have "quiet s s1" by simp
    moreover from Pair Inr have "run_ok s1 (f a s1)" by (intro assms(2)) simp
    ultimately have "run_ok s (f a s1)" by (rule run_ok_step)
    with Pair Inr show ?thesis by (simp add: then_do_def)
  qed
qed

lemma run_ok_next: "run_ok s (m s) \<Longrightarrow> m s = (Inr a, s1) \<Longrightarrow> run_ok s1 rs \<Longrightarrow> run_ok s rs"
  by (rule run_ok_step) simp_all

lemma quiet_save_screenshot: "quiet s s' \<Longrightarrow> quiet s (save_screenshot w p s')"
  unfolding save_screenshot_def Let_def by (auto intro!: quiet_intros)

lemma quiet_resize_to_canvas: "quiet s s' \<Longrightarrow> quiet s (resize_to_canvas cfg w n s')"
  unfolding resize_to_canvas_def set_viewport_size_def
  by (auto intro!: quiet_intros split: option.splits)

lemma run_ok_capture_page: "run_ok s (capture_page cfg w p s)"
  unfolding capture_page_def Let_def
  by (auto simp: run_ok_def intro!: quiet_save_screenshot quiet_emit quiet_resize_to_canvas)

lemma run_ok_fetch_pages: "run_ok s (fetch_pages cfg w url folder d ps s)"
proof (induction ps arbitrary: s d)
  case Nil
  show ?case by simp
next
  case (Cons p ps)
  let ?s0 = "browser_get (url @ ''/read/page/'' @ str_nat p) s"
  have q0: "quiet s ?s0" by (intro quiet_intros) simp
  have w: "run_ok s (waiting_loading_page w True d ?s0)"
    by (rule run_ok_step[OF q0 run_ok_waiting])
  show ?case
  proof (cases "isfile s (page_file folder p)")
    case True
    then show ?thesis using Cons.IH by simp
  next
    case False
    show ?thesis
    proof (cases "waiting_loading_page w True d ?s0")
      case (Pair r s1)
      show ?thesis
      proof (cases r)
        case (Inl e)
        with Pair w False show ?thesis by (simp add: Let_def)
      next
        case (Inr u)
        with Pair w have q1: "quiet s s1" by simp
        show ?thesis
        proof (cases "capture_page cfg w (page_file folder p) s1")
          case c: (Pair r2 s2)
          have rc: "run_ok s (r2, s2)"
            using run_ok_step[OF q1 run_ok_capture_page[of s1 cfg w "page_file folder p"]] c by simp
          show ?thesis
          proof (cases r2)
            case (Inl e)
            with Pair Inr c rc False show ?thesis by (simp add: Let_def)
          next
            case i2: (Inr u2)
            with rc have "quiet s s2" by simp
            then have "run_ok s (fetch_pages cfg w url folder False ps s2)"
              by (rule run_ok_step) (rule Cons.IH)
            with Pair Inr c i2 False show ?thesis by (simp add: Let_def)
          qed
        qed
      qed
    qed
  qed
qed

lemma run_ok_image_open: "run_ok s (image_open p s)"
  unfolding image_open_def
  by (auto simp: run_ok_def intro!: quiet_emit split: option.splits content.splits)

lemma run_ok_check_pages: "run_ok s (check_pages folder failed ps s)"
proof (induction ps arbitrary: s failed)
  case Nil
  show ?case by simp
next
  case (Cons p ps)
  show ?case
  proof (cases "image_open (page_file folder p) s")
    case (Pair r s1)
    have r: "run_ok s (r, s1)" using run_ok_image_open[of s "page_file folder p"] Pair by simp
    show ?thesis
    proof (cases r)
      case (Inl e)
      with Pair r show ?thesis by simp
    next
      case (Inr wh)
      with r have "quiet s s1" by simp
      then have "\<And>f. run_ok s (check_pages folder f ps s1)"
        by (rule run_ok_step) (rule Cons.IH)
      with Pair Inr show ?thesis by (simp split: prod.splits)
    qed
  qed
qed

lemma run_ok_os_remove: "run_ok s (os_remove p s)"
  unfolding os_remove_def by (auto simp: run_ok_def intro!: quiet_intros)

lemma run_ok_os_rmdir: "run_ok s (os_rmdir p s)"
  unfolding os_rmdir_def by (auto simp: run_ok_def intro!: quiet_intros)

lemma run_ok_os_mkdir: "run_ok s (os_mkdir p s)"
  unfolding os_mkdir_def by (auto simp: run_ok_def intro!: quiet_intros)

lemma run_ok_remove_pages: "run_ok s (remove_pages folder ps s)"
proof (induction ps arbitrary: s)
  case Nil
  show ?case by simp
next
  case (Cons p ps)
  show ?case
  proof (cases "os_remove (page_file folder p) s")
    case (Pair r s1)
    have r: "run_ok s (r, s1)" using run_ok_os_remove[of s "page_file folder p"] Pair by simp
    show ?thesis
    proof (cases r)
      case (Inl e)
      with Pair r Cons.IH show ?thesis by (simp add: Let_def)
    next
      case (Inr u)
      with r have "quiet s s1" by simp
      then have "run_ok s (remove_pages folder ps s1)"
        by (rule run_ok_step) (rule Cons.IH)
      with Pair Inr Cons.IH show ?thesis by (simp add: Let_def)
    qed
  qed
qed

lemma run_ok_remove_manga_folder: "run_ok s (remove_manga_folder folder n s)"
  unfolding remove_manga_folder_def
  by (rule run_ok_then_do) (rule run_ok_remove_pages, rule run_ok_os_rmdir)

lemma run_ok_write_members: "run_ok s (write_members z folder acc ps s)"
  by (induction ps arbitrary: acc) (auto simp: run_ok_def intro!: quiet_intros split: option.splits)

lemma run_ok_pack_item: "run_ok s (pack_item cfg name folder n s)"
proof -
  let ?z = "path_join (root_manga_dir cfg) (name @ ''.cbz'')"
  have "run_ok s (then_do (write_members ?z folder [] [1..<Suc n])
                (\<lambda>_ s1. if path_exists s1 ?z then remove_manga_folder folder n s1
                         else (Inr (), s1)) s)"
    by (rule run_ok_then_do) (auto intro: run_ok_write_members run_ok_remove_manga_folder)
  then show ?thesis
    unfolding pack_item_def Let_def by simp
qed

lemma quiet_reinit_browser: "quiet s s' \<Longrightarrow> quiet s (reinit_browser cfg s')"
  unfolding reinit_browser_def by (intro quiet_intros) simp_all

lemma run_ok_failed_branch:
  "run_ok s (then_do (remove_manga_folder folder n)
              (\<lambda>_ s2. (Inr False, reinit_browser cfg s2)) (add_failed url s))"
proof -
  have q: "quiet s (add_failed url s)" by (intro quiet_intros quiet_refl)
  have "run_ok (add_failed url s) (then_do (remove_manga_folder folder n)
              (\<lambda>_ s2. (Inr False, reinit_browser cfg s2)) (add_failed url s))"
    by (rule run_ok_then_do) (simp_all add: run_ok_remove_manga_folder quiet_reinit_browser)
  with q show ?thesis by (rule run_ok_step)
qed

lemma run_ok_done_branch:
  "run_ok s (then_do (if pack cfg then pack_item cfg name folder n else (\<lambda>s1. (Inr (), s1)))
              (\<lambda>_ s2. (Inr True, add_done url s2)) s)"
  by (rule run_ok_then_do) (simp_all add: run_ok_pack_item quiet_add_done)

lemma run_ok_finish_item: "run_ok s (finish_item cfg url name folder n s)"
  unfolding finish_item_def
  by (rule run_ok_then_do) (simp_all add: run_ok_check_pages run_ok_failed_branch run_ok_done_branch)

lemma run_ok_process_item: "run_ok s (process_item cfg w url s)"
proof -
  let ?u = "sanitize_url url"
  have a: "run_ok s (waiting_loading_page w False False (browser_get ?u s))"
    by (rule run_ok_step[OF _ run_ok_waiting]) (intro quiet_intros quiet_refl)
  have b: "\<And>m n s1. (\<And>s. run_ok s (m s)) \<Longrightarrow> run_ok s1
      (then_do m
         (\<lambda>_. then_do
                 (\<lambda>s2. fetch_pages cfg w ?u (path_join (root_manga_dir cfg) (last_segment ?u)) True
                          [Suc 0..<Suc n] (say (DownloadingMsg (last_segment ?u)) s2))
                 (\<lambda>_. finish_item cfg ?u (last_segment ?u)
                        (path_join (root_manga_dir cfg) (last_segment ?u)) n))
         s1)"
    apply (rule run_ok_then_do)
     apply assumption
    apply (rule run_ok_then_do)
     apply (rule run_ok_step[OF _ run_ok_fetch_pages])
     apply (intro quiet_intros quiet_refl)
    apply (rule run_ok_finish_item)
    done
  show ?thesis
    unfolding process_item_def Let_def
    apply (rule run_ok_then_do)
     apply (rule a)
    apply (auto split: option.splits simp: quiet_add_failed intro!: b run_ok_os_mkdir)
    done
qed

lemma run_ok_load_loop: "run_ok s (load_loop cfg w k urls s)"
proof (induction urls arbitrary: s k)
  case Nil
  show ?case by simp
next
  case (Cons url urls)
  show ?case
  proof (cases "blank url")
    case True
    then show ?thesis using Cons.IH by simp
  next
    case False
    show ?thesis
    proof (cases "process_item cfg w url s")
      case (Pair r s1)
      have r: "run_ok s (r, s1)" using run_ok_process_item[of s cfg w url] Pair by simp
      show ?thesis
      proof (cases r)
        case (Inl e)
        with Pair r False show ?thesis by simp
      next
        case (Inr b)
        with r have q: "quiet s s1" by simp
        then have "\<And>k. run_ok s (load_loop cfg w k urls s1)"
          by (rule run_ok_step) (rule Cons.IH)
        with Pair Inr False q show ?thesis by (cases b) simp_all
      qed
    qed
  qed
qed

lemma run_ok_load_all: "run_ok s (load_all cfg w urls s)"
  unfolding load_all_def
  apply (rule run_ok_step[of _ "set_window_size (default_display cfg) s"])
   apply (intro quiet_intros quiet_refl)
  apply (rule run_ok_then_do)
   apply (simp add: run_ok_os_mkdir)
  apply (rule run_ok_load_loop)
  done

lemma list_all_not_ex: "list_all (\<lambda>e. \<not> P e) xs = (\<not> list_ex P xs)"
  by (induction xs) auto


text \<open>
  A run over three urls: the first has no page-count marker, the index page of
  the second is not ready in time, the third is never reached.
\<close>

lemma example_run_exits:
  "fst (load_all cfg0 world_unready [''https://site/y'', ''https://site/z'', ''https://site/w''] s0)
     = Inl SystemExit"
  by code_simp


section \<open>One line for every processed entry\<close>

text \<open>No step but \<^verbatim>\<open>add_done\<close> and \<^verbatim>\<open>add_failed\<close> writes a list.\<close>

lemma same_lists_refl [simp]: "same_lists s s"
  by (simp add: same_lists_def)

lemma same_lists_trans: "same_lists s s1 \<Longrightarrow> same_lists s1 s2 \<Longrightarrow> same_lists s s2"
  by (simp add: same_lists_def)

lemma same_lists_steps [simp]:
  "same_lists s (emit e s') = same_lists s s'" "same_lists s (say m s') = same_lists s s'"
  "same_lists s (browser_get u s') = same_lists s s'"
  "same_lists s (set_window_size wh s') = same_lists s s'"
  "same_lists s (s'\<lparr>files := f\<rparr>) = same_lists s s'" "same_lists s (s'\<lparr>dirs := d\<rparr>) = same_lists s s'"
  by (simp_all add: same_lists_def)

lemma same_lists_then_do:
  assumes "same_lists s (snd (m s))" and "\<And>a s1. m s = (Inr a, s1) \<Longrightarrow> same_lists s1 (snd (f a s1))"
  shows "same_lists s (snd (then_do m f s))"
proof (cases "m s")
  case (Pair r s1)
  show ?thesis
  proof (cases r)
    case (Inl e)
    with Pair assms(1) show ?thesis by (simp add: then_do_def)
  next
    case (Inr a)
    with Pair assms(1) have "same_lists s s1" by simp
    moreover from Pair Inr have "same_lists s1 (snd (f a s1))" by (intro assms(2)) simp
    ultimately have "same_lists s (snd (f a s1))" by (rule same_lists_trans)
    with Pair Inr show ?thesis by (simp add: then_do_def)
  qed
qed

lemma same_lists_waiting: "same_lists s (snd (waiting_loading_page w r d s))"
  by (simp add: waiting_loading_page_def Let_def program_exit_def)

lemma same_lists_save_screenshot [simp]: "same_lists s (save_screenshot w p s') = same_lists s s'"
  by (simp add: save_screenshot_def Let_def)

lemma same_lists_resize [simp]: "same_lists s (resize_to_canvas cfg w n s') = same_lists s s'"
  by (simp add: resize_to_canvas_def set_viewport_size_def split: option.splits)

lemma same_lists_capture: "same_lists s (snd (capture_page cfg w p s))"
  by (simp add: capture_page_def Let_def)

lemma same_lists_fetch: "same_lists s (snd (fetch_pages cfg w url folder d ps s))"
proof (induction ps arbitrary: s d)
  case Nil
  show ?case by simp
next
  case (Cons p ps)
  let ?s0 = "browser_get (url @ ''/read/page/'' @ str_nat p) s"
  have w: "same_lists s (snd (waiting_loading_page w True d ?s0))"
    by (rule same_lists_trans[OF _ same_lists_waiting]) simp
  show ?case
  proof (cases "isfile s (page_file folder p)")
    case True
    then show ?thesis using Cons.IH by simp
  next
    case False
    show ?thesis
    proof (cases "waiting_loading_page w True d ?s0")
      case (Pair r s1)
      with w have q1: "same_lists s s1" by simp
      show ?thesis
      proof (cases r)
        case (Inl e)
        with Pair q1 False show ?thesis by (simp add: Let_def)
      next
        case (Inr u)
        show ?thesis
        proof (cases "capture_page cfg w (page_file folder p) s1")
          case c: (Pair r2 s2)
          have q2: "same_lists s s2"
            using same_lists_trans[OF q1 same_lists_capture[of s1 cfg w "page_file folder p"]] c by simp
          show ?thesis
          proof (cases r2)
            case (Inl e)
            with Pair Inr c q2 False show ?thesis by (simp add: Let_def)
          next
            case i2: (Inr u2)
            from q2 have "same_lists s (snd (fetch_pages cfg w url folder False ps s2))"
              by (rule same_lists_trans) (rule Cons.IH)
            with Pair Inr c i2 False show ?thesis by (simp add: Let_def)
          qed
        qed
      qed
    qed
  qed
qed

lemma same_lists_check: "same_lists s (snd (check_pages folder failed ps s))"
proof (induction ps arbitrary: s failed)
  case Nil
  show ?case by simp
next
  case (Cons p ps)
  have "\<And>f s1. same_lists s s1 \<Longrightarrow> same_lists s (snd (check_pages folder f ps s1))"
    by (erule same_lists_trans) (rule Cons.IH)
  then show ?case
    by (auto simp: image_open_def split: option.splits content.splits)
qed

lemma same_lists_remove_pages: "same_lists s (snd (remove_pages folder ps s))"
proof (induction ps arbitrary: s)
  case Nil
  show ?case by simp
next
  case (Cons p ps)
  have "\<And>s1. same_lists s s1 \<Longrightarrow> same_lists s (snd (remove_pages folder ps s1))"
    by (erule same_lists_trans) (rule Cons.IH)
  then show ?case
    by (auto simp: os_remove_def Let_def)
qed

lemma same_lists_rmdir: "same_lists s (snd (os_rmdir p s))"
  by (simp add: os_rmdir_def)

lemma same_lists_mkdir: "same_lists s (snd (os_mkdir p s))"
  by (simp add: os_mkdir_def)

lemma same_lists_remove_manga_folder: "same_lists s (snd (remove_manga_folder folder n s))"
  unfolding remove_manga_folder_def
  by (rule same_lists_then_do) (rule same_lists_remove_pages, rule same_lists_rmdir)

lemma same_lists_write_members: "same_lists s (snd (write_members z folder acc ps s))"
  by (induction ps arbitrary: acc) (auto split: option.splits)

lemma same_lists_pack_item: "same_lists s (snd (pack_item cfg name folder n s))"
proof -
  let ?z = "path_join (root_manga_dir cfg) (name @ ''.cbz'')"
  have "same_lists s (snd (then_do (write_members ?z folder [] [1..<Suc n])
                (\<lambda>_ s1. if path_exists s1 ?z then remove_manga_folder folder n s1
                         else (Inr (), s1)) s))"
    by (rule same_lists_then_do) (auto intro: same_lists_write_members same_lists_remove_manga_folder)
  then show ?thesis
    unfolding pack_item_def Let_def by simp
qed

lemma reinit_browser_lists [simp]:
  "done_txt (reinit_browser cfg s) = done_txt s" "fail_txt (reinit_browser cfg s) = fail_txt s"
  by (simp_all add: reinit_browser_def)

lemma item_outcome_same: "same_lists s s1 \<Longrightarrow> item_outcome u s1 rs \<Longrightarrow> item_outcome u s rs"
  by (auto simp: item_outcome_def same_lists_def split: sum.splits bool.splits)

lemma item_outcome_finish: "item_outcome url s (finish_item cfg url name folder n s)"
proof (cases "check_pages folder False [1..<Suc n] s")
  case (Pair r s1)
  have q1: "same_lists s s1" using same_lists_check[of s folder False "[1..<Suc n]"] Pair by simp
  show ?thesis
  proof (cases r)
    case (Inl e)
    with Pair q1 show ?thesis
      by (simp add: finish_item_def then_do_def item_outcome_def same_lists_def)
  next
    case (Inr failed)
    show ?thesis
    proof (cases failed)
      case True
      let ?s2 = "add_failed url s1"
      obtain r3 s3 where rm: "remove_manga_folder folder n ?s2 = (r3, s3)" by fastforce
      have q3: "same_lists ?s2 s3" using same_lists_remove_manga_folder[of ?s2 folder n] rm by simp
      with q1 have l: "done_txt s3 = done_txt s" "fail_txt s3 = fail_txt s @ url @ [LF]"
        by (simp_all add: same_lists_def add_failed_def)
      from Pair Inr True rm l show ?thesis
        by (cases r3) (simp_all add: finish_item_def then_do_def item_outcome_def)
    next
      case False
      let ?m = "if pack cfg then pack_item cfg name folder n else (\<lambda>s1. (Inr (), s1))"
      obtain r3 s3 where pk: "?m s1 = (r3, s3)" by fastforce
      have "same_lists s1 (snd (?m s1))" by (simp add: same_lists_pack_item)
      with pk q1 have l: "done_txt s3 = done_txt s" "fail_txt s3 = fail_txt s"
        by (simp_all add: same_lists_def)
      from Pair Inr False pk l show ?thesis
        by (cases r3) (simp_all add: finish_item_def then_do_def item_outcome_def add_done_def)
    qed
  qed
qed

lemma item_outcome_process: "item_outcome (sanitize_url url) s (process_item cfg w url s)"
proof -
  let ?u = "sanitize_url url"
  let ?s0 = "browser_get ?u s"
  obtain r1 s1 where w: "waiting_loading_page w False False ?s0 = (r1, s1)" by fastforce
  have q1: "same_lists s s1"
    using same_lists_trans[OF _ same_lists_waiting[of ?s0 w False False], of s] w by simp
  show ?thesis
  proof (cases r1)
    case (Inl e)
    with w q1 show ?thesis
      by (simp add: process_item_def then_do_def Let_def item_outcome_def same_lists_def)
  next
    case (Inr u1)
    show ?thesis
    proof (cases "get_page_count (page_source (site w (location s1)))")
      case None
      with w Inr q1 show ?thesis
        by (simp add: process_item_def then_do_def Let_def item_outcome_def same_lists_def add_failed_def)
    next
      case (Some n)
      let ?name = "last_segment ?u"
      let ?folder = "path_join (root_manga_dir cfg) ?name"
      let ?mk = "if \<not> path_exists s1 ?folder then os_mkdir ?folder else (\<lambda>s. (Inr (), s))"
      obtain r2 s2 where mk: "?mk s1 = (r2, s2)" by fastforce
      have "same_lists s1 (snd (?mk s1))" by (simp add: same_lists_mkdir)
      with mk q1 have q2: "same_lists s s2" by (simp add: same_lists_def)
      show ?thesis
      proof (cases r2)
        case (Inl e)
        with w Inr Some mk q2 show ?thesis
          by (simp add: process_item_def then_do_def Let_def item_outcome_def same_lists_def)
      next
        case i2: (Inr u2)
        let ?s3 = "say (DownloadingMsg ?name) s2"
        obtain r4 s4 where f: "fetch_pages cfg w ?u ?folder True [1..<Suc n] ?s3 = (r4, s4)" by fastforce
        have "same_lists ?s3 s4"
          using same_lists_fetch[of ?s3 cfg w ?u ?folder True "[1..<Suc n]"] f by simp
        with q2 have q4: "same_lists s s4" by (simp add: same_lists_def)
        show ?thesis
        proof (cases r4)
          case (Inl e)
          with w Inr Some mk i2 f q4 show ?thesis
            by (simp add: process_item_def then_do_def Let_def item_outcome_def same_lists_def)
        next
          case i4: (Inr u4)
          have "item_outcome ?u s (finish_item cfg ?u ?name ?folder n s4)"
            by (rule item_outcome_same[OF q4 item_outcome_finish])
          with w Inr Some mk i2 f i4 show ?thesis
            by (simp add: process_item_def then_do_def Let_def)
        qed
      qed
    qed
  qed
qed

lemma recorded_simps [simp]:
  "recorded flag us [] = []" "recorded flag [] oks = []"
  "recorded flag (u # us) (ok # oks)
     = (if ok = flag then sanitize_url u @ [LF] else []) @ recorded flag us oks"
  by (simp_all add: recorded_def)

lemma load_loop_recorded:
  "load_loop cfg w k urls s = (r, s') \<Longrightarrow>
   \<exists>oks. length oks \<le> length (filter (\<lambda>u. \<not> blank u) urls)
     \<and> done_txt s' = done_txt s @ recorded True (filter (\<lambda>u. \<not> blank u) urls) oks
     \<and> fail_txt s' = fail_txt s @ recorded False (filter (\<lambda>u. \<not> blank u) urls) oks
     \<and> (r = Inr () \<longrightarrow> length oks = length (filter (\<lambda>u. \<not> blank u) urls)
            \<or> (oks \<noteq> [] \<and> last oks \<and> cap_reached cfg (k + length (filter (\<lambda>b. b) oks))))"
proof (induction urls arbitrary: k s)
  case Nil
  then show ?case by (intro exI[of _ "[]"]) auto
next
  case (Cons url urls)
  let ?nb = "filter (\<lambda>u. \<not> blank u) urls"
  let ?u = "sanitize_url url"
  show ?case
  proof (cases "blank url")
    case True
    with Cons.prems have "load_loop cfg w k urls s = (r, s')" by simp
    from Cons.IH[OF this] True show ?thesis by simp
  next
    case False
    obtain r1 s1 where p: "process_item cfg w url s = (r1, s1)" by fastforce
    have o: "item_outcome ?u s (r1, s1)" using item_outcome_process[of url s cfg w] p by simp
    show ?thesis
    proof (cases r1)
      case (Inl e)
      with p False Cons.prems have rs: "r = Inl e" "s' = s1" by simp_all
      from o Inl have d: "done_txt s1 = done_txt s"
        and f: "fail_txt s1 = fail_txt s \<or> fail_txt s1 = fail_txt s @ ?u @ [LF]"
        by (simp_all add: item_outcome_def)
      from f show ?thesis
      proof
        assume "fail_txt s1 = fail_txt s"
        with d rs False show ?thesis by (intro exI[of _ "[]"]) simp
      next
        assume "fail_txt s1 = fail_txt s @ ?u @ [LF]"
        with d rs False show ?thesis by (intro exI[of _ "[False]"]) simp
      qed
    next
      case (Inr b)
      show ?thesis
      proof (cases b)
        case bF: False
        with o Inr have l: "fail_txt s1 = fail_txt s @ ?u @ [LF]" "done_txt s1 = done_txt s"
          by (simp_all add: item_outcome_def)
        from p Inr bF False Cons.prems have "load_loop cfg w k urls s1 = (r, s')" by simp
        from Cons.IH[OF this] obtain oks where
          a: "length oks \<le> length ?nb"
          and b: "done_txt s' = done_txt s1 @ recorded True ?nb oks"
          and c: "fail_txt s' = fail_txt s1 @ recorded False ?nb oks"
          and d: "r = Inr () \<longrightarrow> length oks = length ?nb
                 \<or> (oks \<noteq> [] \<and> last oks \<and> cap_reached cfg (k + length (filter (\<lambda>b. b) oks)))"
          by blast
        from a b c d l False show ?thesis
          by (intro exI[of _ "False # oks"]) auto
      next
        case bT: True
        with o Inr have l: "done_txt s1 = done_txt s @ ?u @ [LF]" "fail_txt s1 = fail_txt s"
          by (simp_all add: item_outcome_def)
        show ?thesis
        proof (cases "cap_reached cfg (Suc k)")
          case True
          with p Inr bT False Cons.prems have "r = Inr ()" "s' = s1" by simp_all
          with l True False show ?thesis
            by (intro exI[of _ "[True]"]) simp
        next
          case nc: False
          with p Inr bT False Cons.prems have "load_loop cfg w (Suc k) urls s1 = (r, s')" by simp
          from Cons.IH[OF this] obtain oks where
            a: "length oks \<le> length ?nb"
            and b: "done_txt s' = done_txt s1 @ recorded True ?nb oks"
            and c: "fail_txt s' = fail_txt s1 @ recorded False ?nb oks"
            and d: "r = Inr () \<longrightarrow> length oks = length ?nb
                   \<or> (oks \<noteq> [] \<and> last oks \<and> cap_reached cfg (Suc k + length (filter (\<lambda>b. b) oks)))"
            by blast
          from a b c d l False show ?thesis
            by (intro exI[of _ "True # oks"]) auto
        qed
      qed
    qed
  qed
qed

text \<open>
  C2, as amended: in every run of \<^verbatim>\<open>load_all\<close> the entries of the queue that are
  not blank are processed in order, and every processed entry appends its
  canonical form exactly once, to the completed list when its outcome is
  success and to the failed list otherwise (\<open>oks\<close> lists the outcomes). Blank
  entries and the entries behind the last processed one append nothing. A run
  that returns has processed every entry that is not blank, or has stopped
  behind a success with which the item cap was reached.
\<close>

theorem each_entry_recorded_once:
  assumes "load_all cfg w urls s = (r, s')"
  shows "\<exists>oks. length oks \<le> length (filter (\<lambda>u. \<not> blank u) urls)
     \<and> done_txt s' = done_txt s @ recorded True (filter (\<lambda>u. \<not> blank u) urls) oks
     \<and> fail_txt s' = fail_txt s @ recorded False (filter (\<lambda>u. \<not> blank u) urls) oks
     \<and> (r = Inr () \<longrightarrow> length oks = length (filter (\<lambda>u. \<not> blank u) urls)
            \<or> (oks \<noteq> [] \<and> last oks \<and> cap_reached cfg (length (filter (\<lambda>b. b) oks))))"
proof -
  let ?s0 = "set_window_size (default_display cfg) s"
  let ?mk = "\<lambda>s0. if \<not> path_exists s0 (root_manga_dir cfg) then os_mkdir (root_manga_dir cfg) s0
                   else (Inr (), s0)"
  obtain r1 s1 where mk: "?mk ?s0 = (r1, s1)" by fastforce
  have "same_lists ?s0 (snd (?mk ?s0))" by (simp add: same_lists_mkdir)
  with mk have l: "done_txt s1 = done_txt s" "fail_txt s1 = fail_txt s"
    by (simp_all add: same_lists_def)
  show ?thesis
  proof (cases r1)
    case (Inl e)
    with mk assms have "r = Inl e" "s' = s1" by (simp_all add: load_all_def then_do_def)
    with l show ?thesis by (intro exI[of _ "[]"]) simp
  next
    case (Inr u)
    with mk assms have "load_loop cfg w 0 urls s1 = (r, s')" by (simp add: load_all_def then_do_def)
    from load_loop_recorded[OF this] l show ?thesis by simp
  qed
qed

text \<open>
  A run without item cap over a queue built from three requested lines. The
  second line is canonicalised once when the queue is built and once more in the
  main loop, and then names the item of the first line: the item fails on the
  undersized page left on disk, is fetched again and completes, so its identifier
  is written to both lists. The third item ends the run at its index page and is
  written to neither.
\<close>

theorem identifier_in_both_lists:
  "get_urls_list (Some []) (Some [])
       (Some (unlines [''https://site/x'', ''https://site/x/re/readad'', ''https://site/z'']))
     = Inr [''https://site/x'', ''https://site/x/read'', ''https://site/z'']
   \<and> max_items cfg0 = None
   \<and> fst (load_all cfg0 world_resume [''https://site/x'', ''https://site/x/read'', ''https://site/z'']
            s_resume) = Inl SystemExit
   \<and> done_txt (snd (load_all cfg0 world_resume
            [''https://site/x'', ''https://site/x/read'', ''https://site/z''] s_resume))
        = ''https://site/x'' @ [LF]
   \<and> fail_txt (snd (load_all cfg0 world_resume
            [''https://site/x'', ''https://site/x/read'', ''https://site/z''] s_resume))
        = ''https://site/x'' @ [LF]"
  by code_simp

lemma example_run_returns:
  "fst (load_all cfg0 world_resume [''https://site/x'', [], ''https://site/x/read''] s_resume) = Inr ()"
  by code_simp

theorem each_entry_recorded_once_witness:
  "\<exists>oks. length oks \<le> length (filter (\<lambda>u. \<not> blank u) [''https://site/x'', [], ''https://site/x/read''])
     \<and> done_txt (snd (load_all cfg0 world_resume [''https://site/x'', [], ''https://site/x/read''] s_resume))
         = done_txt s_resume
           @ recorded True (filter (\<lambda>u. \<not> blank u) [''https://site/x'', [], ''https://site/x/read'']) oks
     \<and> fail_txt (snd (load_all cfg0 world_resume [''https://site/x'', [], ''https://site/x/read''] s_resume))
         = fail_txt s_resume
           @ recorded False (filter (\<lambda>u. \<not> blank u) [''https://site/x'', [], ''https://site/x/read'']) oks
     \<and> (length oks = length (filter (\<lambda>u. \<not> blank u) [''https://site/x'', [], ''https://site/x/read''])
          \<or> (oks \<noteq> [] \<and> last oks \<and> cap_reached cfg0 (length (filter (\<lambda>b. b) oks))))"
proof -
  define urls where "urls = [''https://site/x'', [], ''https://site/x/read'']"
  define run where "run = load_all cfg0 world_resume urls s_resume"
  have h: "load_all cfg0 world_resume urls s_resume = (fst run, snd run)"
    by (simp add: run_def)
  have ex: "fst run = Inr ()" unfolding run_def urls_def by (rule example_run_returns)
  from each_entry_recorded_once[OF h] obtain oks where
    c: "length oks \<le> length (filter (\<lambda>u. \<not> blank u) urls)
     \<and> done_txt (snd run) = done_txt s_resume @ recorded True (filter (\<lambda>u. \<not> blank u) urls) oks
     \<and> fail_txt (snd run) = fail_txt s_resume @ recorded False (filter (\<lambda>u. \<not> blank u) urls) oks
     \<and> (fst run = Inr () \<longrightarrow> length oks = length (filter (\<lambda>u. \<not> blank u) urls)
            \<or> (oks \<noteq> [] \<and> last oks \<and> cap_reached cfg0 (length (filter (\<lambda>b. b) oks))))" ..
  from c ex have "length oks \<le> length (filter (\<lambda>u. \<not> blank u) urls)
     \<and> done_txt (snd run) = done_txt s_resume @ recorded True (filter (\<lambda>u. \<not> blank u) urls) oks
     \<and> fail_txt (snd run) = fail_txt s_resume @ recorded False (filter (\<lambda>u. \<not> blank u) urls) oks
     \<and> (length oks = length (filter (\<lambda>u. \<not> blank u) urls)
            \<or> (oks \<noteq> [] \<and> last oks \<and> cap_reached cfg0 (length (filter (\<lambda>b. b) oks))))"
    by (simp only: simp_thms)
  then show ?thesis unfolding run_def urls_def by (rule exI)
qed

section \<open>Places of the paths the pipeline builds\<close>

lemma split_path_plain: "CHR ''/'' \<notin> set c \<Longrightarrow> split_path acc c = [rev acc @ c]"
  by (induction c arbitrary: acc) auto

lemma split_path_join:
  "CHR ''/'' \<notin> set c \<Longrightarrow> split_path acc (a @ ''/'' @ c) = split_path acc a @ [c]"
  by (induction a arbitrary: acc) (simp_all add: split_path_plain)

lemma norm_path_join:
  assumes "CHR ''/'' \<notin> set c"
  shows "norm_path (path_join a c) = step_path (dir_of a) c"
proof -
  have pre: "prefix ''/'' (a @ ''/'' @ c) \<longleftrightarrow> a = [] \<or> prefix ''/'' a"
    by (cases a) auto
  have "norm_path (a @ ''/'' @ c)
      = foldl step_path (if a = [] \<or> prefix ''/'' a then [''/''] else []) (split_path [] a @ [c])"
    unfolding norm_path_def pre split_path_join[OF assms] ..
  then show ?thesis by (simp add: path_join_def dir_of_def)
qed

lemma step_path_proper: "proper_name c \<Longrightarrow> step_path q c = q @ [c]"
  by (simp add: step_path_def proper_name_def)

lemma norm_path_join_proper:
  "proper_name c \<Longrightarrow> norm_path (path_join a c) = dir_of a @ [c]"
  by (simp add: norm_path_join step_path_proper proper_name_def)

lemma dir_of_norm: "a \<noteq> [] \<Longrightarrow> dir_of a = norm_path a"
  by (simp add: dir_of_def norm_path_def)

lemma digit_char_is_digit: "d < 10 \<Longrightarrow> digit_char d \<in> set ''0123456789''"
proof -
  assume "d < 10"
  then have "d \<in> {0, 1, 2, 3, 4, 5, 6, 7, 8, 9}" by auto
  then show ?thesis by (auto simp: digit_char_def)
qed

lemma str_nat_digits: "set (str_nat n) \<subseteq> set ''0123456789''"
proof (induction n rule: str_nat.induct)
  case (1 n)
  show ?case
  proof (cases "n < 10")
    case True
    then show ?thesis using digit_char_is_digit[of n] by (subst str_nat.simps) simp
  next
    case False
    have "n mod 10 < 10" by simp
    from digit_char_is_digit[OF this] 1[OF False] False show ?thesis
      by (subst str_nat.simps) auto
  qed
qed

lemma str_nat_nonempty: "str_nat n \<noteq> []"
  by (subst str_nat.simps) simp

lemma proper_page_name: "proper_name (str_nat k @ ''.png'')"
proof -
  have "CHR ''/'' \<notin> set (str_nat k)" using str_nat_digits[of k] by auto
  moreover have "length (str_nat k @ ''.png'') \<ge> 5"
    using str_nat_nonempty[of k] by (cases "str_nat k") simp_all
  ultimately show ?thesis
    by (auto simp: proper_name_def)
qed

lemma page_place: "norm_path (page_file folder k) = dir_of folder @ [str_nat k @ ''.png'']"
  by (simp add: page_file_def norm_path_join_proper proper_page_name)

lemma digit_value_char: "d < 10 \<Longrightarrow> digit_value (digit_char d) = d"
proof -
  assume "d < 10"
  then have "d \<in> {0, 1, 2, 3, 4, 5, 6, 7, 8, 9}" by auto
  then show ?thesis by (auto simp: digit_char_def digit_value_def)
qed

lemma nat_of_digits_snoc: "nat_of_digits (ds @ [c]) = 10 * nat_of_digits ds + digit_value c"
  by (simp add: nat_of_digits_def)

lemma nat_of_str_nat: "nat_of_digits (str_nat n) = n"
proof (induction n rule: str_nat.induct)
  case (1 n)
  show ?case
  proof (cases "n < 10")
    case True
    then show ?thesis
      by (subst str_nat.simps) (simp add: nat_of_digits_def digit_value_char)
  next
    case False
    have "n mod 10 < 10" by simp
    with 1[OF False] False show ?thesis
      by (subst str_nat.simps) (simp add: nat_of_digits_snoc digit_value_char)
  qed
qed

lemma str_nat_inj: "str_nat j = str_nat k \<Longrightarrow> j = k"
  by (metis nat_of_str_nat)

lemma page_place_inj:
  "norm_path (page_file folder j) = norm_path (page_file folder k) \<Longrightarrow> j = k"
  by (simp add: page_place str_nat_inj)

lemma page_place_not_root:
  "norm_path (page_file folder k) \<noteq> []" "norm_path (page_file folder k) \<noteq> [''/'']"
  using proper_page_name[of k] by (auto simp: page_place proper_name_def)

section \<open>The validation step and what it leaves on disk\<close>

lemma map_of_write_file [simp]:
  "map_of (write_file q c fs) q' = (if q' = q then Some c else map_of fs q')"
  by (induction fs) (auto simp: write_file_def)

lemma keys_write_file [simp]: "fst ` set (write_file q c fs) = insert q (fst ` set fs)"
  by (auto simp: write_file_def)

lemma map_of_filter_keys:
  "map_of (filter (\<lambda>e. P (fst e)) fs) q = (if P q then map_of fs q else None)"
  by (induction fs) auto

lemma is_image_trace [simp]: "is_image (s\<lparr>trace := t\<rparr>) p = is_image s p"
  by (simp add: is_image_def)

lemma undersized_trace [simp]: "undersized (s\<lparr>trace := t\<rparr>) p = undersized s p"
  by (simp add: undersized_def)

lemma check_pages_images:
  "list_all (\<lambda>k. is_image s (page_file folder k)) ps \<Longrightarrow>
   check_pages folder failed ps s
     = (Inr (failed \<or> list_ex (\<lambda>k. undersized s (page_file folder k)) ps),
        s\<lparr>trace := trace s @ map (\<lambda>k. OpenImage (page_file folder k)) ps\<rparr>)"
proof (induction ps arbitrary: s failed)
  case Nil
  then show ?case by simp
next
  case (Cons k ps)
  from Cons.prems obtain wd ht where
    img: "map_of (files s) (norm_path (page_file folder k)) = Some (Img wd ht)"
    by (auto simp: is_image_def split: option.splits content.splits)
  let ?s1 = "emit (OpenImage (page_file folder k)) s"
  have s1: "?s1 = s\<lparr>trace := trace s @ [OpenImage (page_file folder k)]\<rparr>" by (simp add: emit_def)
  have *: "list_all (\<lambda>k. is_image ?s1 (page_file folder k)) ps"
    using Cons.prems by (simp add: s1)
  show ?case
    using img Cons.IH[OF *]
    by (auto simp: image_open_def undersized_def s1)
qed

lemma remove_pages_files:
  "list_all (\<lambda>k. \<not> isdir s (page_file folder k)) ps \<Longrightarrow>
   remove_pages folder ps s
     = (Inr (), s\<lparr>files := filter (\<lambda>e. fst e \<notin> set (map (\<lambda>k. norm_path (page_file folder k)) ps))
                              (files s)\<rparr>)"
proof (induction ps arbitrary: s)
  case Nil
  then show ?case by simp
next
  case (Cons k ps)
  let ?f = "page_file folder k"
  show ?case
  proof (cases "isfile s ?f")
    case True
    let ?s1 = "s\<lparr>files := delete_file (norm_path ?f) (files s)\<rparr>"
    have "list_all (\<lambda>k. \<not> isdir ?s1 (page_file folder k)) ps"
      using Cons.prems by (simp add: isdir_def)
    from Cons.IH[OF this] True show ?thesis
      by (simp add: path_exists_def os_remove_def delete_file_def Let_def conj_commute)
  next
    case False
    then have nf: "norm_path ?f \<notin> fst ` set (files s)"
      by (simp add: isfile_def map_of_eq_None_iff)
    then have "filter (\<lambda>e. fst e \<noteq> norm_path ?f
                \<and> fst e \<notin> set (map (\<lambda>k. norm_path (page_file folder k)) ps)) (files s)
        = filter (\<lambda>e. fst e \<notin> set (map (\<lambda>k. norm_path (page_file folder k)) ps)) (files s)"
      by (intro filter_cong) force+
    moreover have "list_all (\<lambda>k. \<not> isdir s (page_file folder k)) ps" using Cons.prems by simp
    ultimately show ?thesis
      using False Cons.prems Cons.IH[of s] by (simp add: path_exists_def Let_def)
  qed
qed

text \<open>
  The removal of the directory of an item that holds nothing but page files,
  none of which is a directory.
\<close>

lemma remove_manga_folder_clean:
  assumes dir: "norm_path folder \<in> set (dirs s)"
    and only: "only_pages s folder n"
    and nd: "list_all (\<lambda>k. norm_path (page_file folder k) \<notin> set (dirs s)) [1..<Suc n]"
  shows "remove_manga_folder folder n s
     = (Inr (), s\<lparr>files := filter (\<lambda>e. fst e \<notin> set (page_places folder n)) (files s),
                   dirs := removeAll (norm_path folder) (dirs s)\<rparr>)"
    and "no_artifact (s\<lparr>files := filter (\<lambda>e. fst e \<notin> set (page_places folder n)) (files s),
                   dirs := removeAll (norm_path folder) (dirs s)\<rparr>) folder"
proof -
  let ?pp = "set (page_places folder n)"
  let ?s1 = "s\<lparr>files := filter (\<lambda>e. fst e \<notin> ?pp) (files s)\<rparr>"
  have "list_all (\<lambda>k. \<not> isdir s (page_file folder k)) [1..<Suc n]"
    using nd by (simp add: isdir_def page_place_not_root list_all_iff)
  then have rp: "remove_pages folder [1..<Suc n] s = (Inr (), ?s1)"
    by (simp add: remove_pages_files page_places_def)
  have ins: "\<And>q. q \<in> fst ` set (files s) \<union> set (dirs s) \<Longrightarrow> inside (norm_path folder) q \<Longrightarrow> q \<in> ?pp"
    using only by (auto simp: only_pages_def list_all_iff)
  have ndp: "\<And>q. q \<in> ?pp \<Longrightarrow> q \<notin> set (dirs s)"
    using nd by (auto simp: page_places_def list_all_iff)
  have empty: "\<And>q. q \<in> fst ` set (files ?s1) \<union> set (dirs s) \<Longrightarrow> \<not> inside (norm_path folder) q"
    using ins ndp by auto
  then have de: "dir_empty ?s1 (norm_path folder)"
    by (auto simp: dir_empty_def list_all_iff)
  show "remove_manga_folder folder n s
     = (Inr (), s\<lparr>files := filter (\<lambda>e. fst e \<notin> ?pp) (files s),
                   dirs := removeAll (norm_path folder) (dirs s)\<rparr>)"
    using rp de dir by (simp add: remove_manga_folder_def then_do_def os_rmdir_def)
  show "no_artifact (s\<lparr>files := filter (\<lambda>e. fst e \<notin> ?pp) (files s),
                   dirs := removeAll (norm_path folder) (dirs s)\<rparr>) folder"
    using empty by (auto simp: no_artifact_def list_all_iff)
qed

lemma images_not_dirs:
  "pages_are_images s folder n \<Longrightarrow> dirs_not_files s \<Longrightarrow>
   list_all (\<lambda>k. norm_path (page_file folder k) \<notin> set (dirs s)) [1..<Suc n]"
  by (auto simp: pages_are_images_def dirs_not_files_def list_all_iff is_image_def
      split: option.splits)

lemma add_failed_fields [simp]:
  "location (add_failed u s) = location s" "window (add_failed u s) = window s"
  "files (add_failed u s) = files s" "dirs (add_failed u s) = dirs s"
  "done_txt (add_failed u s) = done_txt s" "fail_txt (add_failed u s) = fail_txt s @ u @ [LF]"
  "trace (add_failed u s) = trace s"
  by (simp_all add: add_failed_def)

lemma add_done_fields [simp]:
  "location (add_done u s) = location s" "window (add_done u s) = window s"
  "files (add_done u s) = files s" "dirs (add_done u s) = dirs s"
  "done_txt (add_done u s) = done_txt s @ u @ [LF]" "fail_txt (add_done u s) = fail_txt s"
  "trace (add_done u s) = trace s"
  by (simp_all add: add_done_def)

lemma reinit_browser_disk [simp]:
  "files (reinit_browser cfg s) = files s" "dirs (reinit_browser cfg s) = dirs s"
  by (simp_all add: reinit_browser_def)

lemma only_pages_disk: "files s' = files s \<Longrightarrow> dirs s' = dirs s \<Longrightarrow> only_pages s' = only_pages s"
  by (simp add: only_pages_def fun_eq_iff)

lemma no_artifact_disk: "files s' = files s \<Longrightarrow> dirs s' = dirs s \<Longrightarrow> no_artifact s' = no_artifact s"
  by (simp add: no_artifact_def fun_eq_iff)

lemma write_members_images:
  "list_all (\<lambda>k. is_image s (page_file folder k)) ps \<Longrightarrow>
   write_members z folder acc ps s
     = (Inr (), s\<lparr>files := write_file (norm_path z)
           (Archive (acc @ map (\<lambda>k. (str_nat k @ ''.png'',
                                     the (map_of (files s) (norm_path (page_file folder k))))) ps))
           (files s)\<rparr>)"
  by (induction ps arbitrary: acc)
     (auto simp: is_image_def split: option.splits content.splits)

text \<open>The archive of an item with a proper name lies beside its directory.\<close>

lemma archive_beside:
  assumes "proper_name name"
  shows "\<not> inside (norm_path (path_join root name)) (norm_path (path_join root (name @ ''.cbz'')))"
    and "norm_path (path_join root (name @ ''.cbz'')) \<notin> set (page_places (path_join root name) n)"
proof -
  have pz: "proper_name (name @ ''.cbz'')"
    using assms by (auto simp: proper_name_def append_eq_Cons_conv)
  have f: "norm_path (path_join root name) = dir_of root @ [name]"
    using assms by (rule norm_path_join_proper)
  have z: "norm_path (path_join root (name @ ''.cbz'')) = dir_of root @ [name @ ''.cbz'']"
    using pz by (rule norm_path_join_proper)
  show "\<not> inside (norm_path (path_join root name)) (norm_path (path_join root (name @ ''.cbz'')))"
    by (simp add: f z inside_def strict_prefix_def)
  have ne: "path_join root name \<noteq> []" by (simp add: path_join_def)
  show "norm_path (path_join root (name @ ''.cbz'')) \<notin> set (page_places (path_join root name) n)"
    by (auto simp: page_places_def page_place dir_of_norm[OF ne] f z)
qed

lemma finish_item_failed:
  assumes img: "pages_are_images s folder n"
    and dir: "norm_path folder \<in> set (dirs s)"
    and only: "only_pages s folder n"
    and dnf: "dirs_not_files s"
    and bad: "some_undersized s folder n"
  shows "\<exists>s'. finish_item cfg url name folder n s = (Inr False, s')
      \<and> fail_txt s' = fail_txt s @ url @ [LF] \<and> done_txt s' = done_txt s
      \<and> no_artifact s' folder"
proof -
  let ?s1 = "s\<lparr>trace := trace s @ map (\<lambda>k. OpenImage (page_file folder k)) [1..<Suc n]\<rparr>"
  have chk: "check_pages folder False [1..<Suc n] s = (Inr True, ?s1)"
    using check_pages_images[of s folder "[1..<Suc n]" False] img bad
    by (simp add: pages_are_images_def some_undersized_def)
  let ?s2 = "add_failed url ?s1"
  have d2: "norm_path folder \<in> set (dirs ?s2)" using dir by simp
  have o2: "only_pages ?s2 folder n" using only only_pages_disk[of ?s2 s] by simp
  have n2: "list_all (\<lambda>k. norm_path (page_file folder k) \<notin> set (dirs ?s2)) [1..<Suc n]"
    using images_not_dirs[OF img dnf] by simp
  let ?s3 = "?s2\<lparr>files := filter (\<lambda>e. fst e \<notin> set (page_places folder n)) (files ?s2),
                   dirs := removeAll (norm_path folder) (dirs ?s2)\<rparr>"
  have rm: "remove_manga_folder folder n ?s2 = (Inr (), ?s3)"
    by (rule remove_manga_folder_clean(1)[OF d2 o2 n2])
  have na: "no_artifact ?s3 folder"
    by (rule remove_manga_folder_clean(2)[OF d2 o2 n2])
  let ?s' = "reinit_browser cfg ?s3"
  have "finish_item cfg url name folder n s = (Inr False, ?s')"
    using chk rm by (simp add: finish_item_def then_do_def)
  moreover have "fail_txt ?s' = fail_txt s @ url @ [LF]" "done_txt ?s' = done_txt s" by simp_all
  moreover have "no_artifact ?s' folder"
    using na no_artifact_disk[of ?s' ?s3] by simp
  ultimately show ?thesis by (intro exI conjI)
qed

lemma finish_item_kept:
  assumes img: "pages_are_images s folder n"
    and good: "\<not> some_undersized s folder n"
    and np: "\<not> pack cfg"
  shows "\<exists>s'. finish_item cfg url name folder n s = (Inr True, s')
      \<and> done_txt s' = done_txt s @ url @ [LF] \<and> fail_txt s' = fail_txt s
      \<and> files s' = files s \<and> dirs s' = dirs s"
proof -
  let ?s1 = "s\<lparr>trace := trace s @ map (\<lambda>k. OpenImage (page_file folder k)) [1..<Suc n]\<rparr>"
  have chk: "check_pages folder False [1..<Suc n] s = (Inr False, ?s1)"
    using check_pages_images[of s folder "[1..<Suc n]" False] img good
    by (simp add: pages_are_images_def some_undersized_def)
  have "finish_item cfg url name folder n s = (Inr True, add_done url ?s1)"
    using chk np by (simp add: finish_item_def then_do_def)
  moreover have "done_txt (add_done url ?s1) = done_txt s @ url @ [LF]"
    "fail_txt (add_done url ?s1) = fail_txt s" "files (add_done url ?s1) = files s"
    "dirs (add_done url ?s1) = dirs s" by simp_all
  ultimately show ?thesis by (intro exI conjI)
qed

lemma finish_item_packed:
  assumes img: "pages_are_images s folder n"
    and dir: "norm_path folder \<in> set (dirs s)"
    and only: "only_pages s folder n"
    and dnf: "dirs_not_files s"
    and good: "\<not> some_undersized s folder n"
    and p: "pack cfg"
    and fo: "folder = path_join (root_manga_dir cfg) name"
    and pn: "proper_name name"
    and zd: "\<not> isdir s (path_join (root_manga_dir cfg) (name @ ''.cbz''))"
    and zp: "parent_is_dir s (path_join (root_manga_dir cfg) (name @ ''.cbz''))"
  shows "\<exists>s'. finish_item cfg url name folder n s = (Inr True, s')
      \<and> done_txt s' = done_txt s @ url @ [LF] \<and> fail_txt s' = fail_txt s
      \<and> map_of (files s') (norm_path (path_join (root_manga_dir cfg) (name @ ''.cbz'')))
          = Some (Archive (page_members s folder n))
      \<and> no_artifact s' folder"
proof -
  let ?zip = "path_join (root_manga_dir cfg) (name @ ''.cbz'')"
  let ?z = "norm_path ?zip"
  let ?s1 = "s\<lparr>trace := trace s @ map (\<lambda>k. OpenImage (page_file folder k)) [1..<Suc n]\<rparr>"
  have chk: "check_pages folder False [1..<Suc n] s = (Inr False, ?s1)"
    using check_pages_images[of s folder "[1..<Suc n]" False] img good
    by (simp add: pages_are_images_def some_undersized_def)
  have img1: "list_all (\<lambda>k. is_image ?s1 (page_file folder k)) [1..<Suc n]"
    using img by (simp add: pages_are_images_def)
  let ?s4 = "?s1\<lparr>files := write_file ?z (Archive (page_members s folder n)) (files ?s1)\<rparr>"
  have wm: "write_members ?zip folder [] [1..<Suc n] ?s1 = (Inr (), ?s4)"
    using write_members_images[OF img1] by (simp add: page_members_def)
  have ex4: "path_exists ?s4 ?zip" by (simp add: path_exists_def isfile_def)
  have beside: "\<not> inside (norm_path folder) ?z" "?z \<notin> set (page_places folder n)"
    using archive_beside(1)[OF pn, of "root_manga_dir cfg"]
      archive_beside(2)[OF pn, of "root_manga_dir cfg" n] fo by simp_all
  have d4: "norm_path folder \<in> set (dirs ?s4)" using dir by simp
  have o4: "only_pages ?s4 folder n"
    using only beside(1) by (auto simp: only_pages_def list_all_iff write_file_def)
  have n4: "list_all (\<lambda>k. norm_path (page_file folder k) \<notin> set (dirs ?s4)) [1..<Suc n]"
    using images_not_dirs[OF img dnf] by simp
  let ?s5 = "?s4\<lparr>files := filter (\<lambda>e. fst e \<notin> set (page_places folder n)) (files ?s4),
                   dirs := removeAll (norm_path folder) (dirs ?s4)\<rparr>"
  have rm: "remove_manga_folder folder n ?s4 = (Inr (), ?s5)"
    by (rule remove_manga_folder_clean(1)[OF d4 o4 n4])
  have na: "no_artifact ?s5 folder"
    by (rule remove_manga_folder_clean(2)[OF d4 o4 n4])
  have zd1: "\<not> isdir ?s1 ?zip" using zd by (simp add: isdir_def)
  have zp1: "parent_is_dir ?s1 ?zip" using zp by (simp add: parent_is_dir_def)
  have pi: "pack_item cfg name folder n ?s1 = (Inr (), ?s5)"
    using zd1 zp1 wm ex4 rm
    by (simp add: pack_item_def Let_def then_do_def)
  let ?s' = "add_done url ?s5"
  have "finish_item cfg url name folder n s = (Inr True, ?s')"
    using chk p pi by (simp add: finish_item_def then_do_def)
  moreover have "done_txt ?s' = done_txt s @ url @ [LF]" "fail_txt ?s' = fail_txt s" by simp_all
  moreover have "map_of (files ?s') ?z = Some (Archive (page_members s folder n))"
  proof -
    let ?fs = "write_file ?z (Archive (page_members s folder n)) (files s)"
    have fl: "files ?s' = filter (\<lambda>e. fst e \<notin> set (page_places folder n)) ?fs" by simp
    have "map_of (filter (\<lambda>e. fst e \<notin> set (page_places folder n)) ?fs) ?z
        = (if ?z \<notin> set (page_places folder n) then map_of ?fs ?z else None)"
      by (rule map_of_filter_keys[of "\<lambda>q. q \<notin> set (page_places folder n)"])
    also have "\<dots> = Some (Archive (page_members s folder n))"
      using beside(2) by simp
    finally show ?thesis by (simp only: fl)
  qed
  moreover have "no_artifact ?s' folder"
    using na no_artifact_disk[of ?s' ?s5] by simp
  ultimately show ?thesis by (intro exI conjI)
qed




section \<open>Resumed items\<close>

lemma left_alone_refl [simp]: "left_alone u f k s s"
  by (simp add: left_alone_def)

lemma left_alone_trans: "left_alone u f k s s1 \<Longrightarrow> left_alone u f k s1 s2 \<Longrightarrow> left_alone u f k s s2"
  by (auto simp: left_alone_def)

lemma left_alone_emit:
  "\<not> touches u f k e \<Longrightarrow> left_alone u f k s s' \<Longrightarrow> left_alone u f k s (emit e s')"
  by (auto simp: left_alone_def)

lemma left_alone_say: "left_alone u f k s s' \<Longrightarrow> left_alone u f k s (say m s')"
  by (auto simp: left_alone_def)

lemma left_alone_waiting:
  "left_alone u f k s s1 \<Longrightarrow> left_alone u f k s (snd (waiting_loading_page w r d s1))"
  by (auto simp: waiting_loading_page_def Let_def program_exit_def
           intro!: left_alone_emit left_alone_say)

lemma left_alone_resize:
  "left_alone u f k s s1 \<Longrightarrow> left_alone u f k s (resize_to_canvas cfg w n s1)"
  by (auto simp: resize_to_canvas_def set_viewport_size_def left_alone_def
           split: option.splits prod.splits)

lemma left_alone_screenshot:
  "norm_path p \<noteq> norm_path (page_file f k) \<Longrightarrow> left_alone u f k s s1
     \<Longrightarrow> left_alone u f k s (save_screenshot w p s1)"
  by (auto simp: save_screenshot_def Let_def left_alone_def)

lemma left_alone_capture:
  "norm_path p \<noteq> norm_path (page_file f k) \<Longrightarrow> left_alone u f k s s1
     \<Longrightarrow> left_alone u f k s (snd (capture_page cfg w p s1))"
  by (auto simp: capture_page_def Let_def
           intro!: left_alone_screenshot left_alone_emit left_alone_resize)

lemma left_alone_file:
  "left_alone u f k s s1 \<Longrightarrow> map_of (files s1) (norm_path (page_file f k))
      = map_of (files s) (norm_path (page_file f k))"
  unfolding left_alone_def by (elim exE conjE)

lemma left_alone_isfile:
  "left_alone u f k s s1 \<Longrightarrow> isfile s1 (page_file f k) = isfile s (page_file f k)"
  by (simp only: isfile_def left_alone_file)

lemma left_alone_fetch:
  "isfile s (page_file f k) \<Longrightarrow> left_alone u f k s (snd (fetch_pages cfg w u f d ps s))"
proof (induction ps arbitrary: s d)
  case Nil
  show ?case by simp
next
  case (Cons j ps)
  show ?case
  proof (cases "isfile s (page_file f j)")
    case True
    then show ?thesis using Cons.IH[OF Cons.prems, of True] by simp
  next
    case False
    let ?s0 = "browser_get (u @ ''/read/page/'' @ str_nat j) s"
    from False Cons.prems have ne: "norm_path (page_file f j) \<noteq> norm_path (page_file f k)"
      by (auto simp: isfile_def)
    then have "str_nat j \<noteq> str_nat k" by (auto simp: page_file_def)
    then have l0: "left_alone u f k s ?s0" by (auto simp: left_alone_def)
    obtain r1 s1 where w: "waiting_loading_page w True d ?s0 = (r1, s1)" by fastforce
    have l1: "left_alone u f k s s1" using left_alone_waiting[OF l0, of w True d] w by simp
    show ?thesis
    proof (cases r1)
      case (Inl e)
      then show ?thesis using False w l1 by simp
    next
      case (Inr a)
      obtain r2 s2 where c: "capture_page cfg w (page_file f j) s1 = (r2, s2)" by fastforce
      have l2: "left_alone u f k s s2" using left_alone_capture[OF ne l1, of cfg w] c by simp
      show ?thesis
      proof (cases r2)
        case (Inl e)
        then show ?thesis using False w Inr c l2 by simp
      next
        case r2: (Inr b)
        have "isfile s2 (page_file f k)" using left_alone_isfile[OF l2] Cons.prems by simp
        from Cons.IH[OF this, of False] have "left_alone u f k s2 (snd (fetch_pages cfg w u f False ps s2))" .
        with l2 have "left_alone u f k s (snd (fetch_pages cfg w u f False ps s2))"
          by (rule left_alone_trans)
        then show ?thesis using False w Inr c r2 by simp
      qed
    qed
  qed
qed

lemma run_ok_prefix: "run_ok s rs \<Longrightarrow> prefix (trace s) (trace (snd rs))"
  by (auto simp: run_ok_def quiet_def exits_def split: if_splits)

lemma login_not_reader: "LOGIN_URL \<noteq> u @ ''/read/page/'' @ str_nat k"
proof
  assume "LOGIN_URL = u @ ''/read/page/'' @ str_nat k"
  then have "last LOGIN_URL = last (u @ ''/read/page/'' @ str_nat k)" by simp
  also have "\<dots> = last (str_nat k)" using str_nat_nonempty[of k] by simp
  finally have "last LOGIN_URL \<in> set (str_nat k)" using str_nat_nonempty[of k] by simp
  then have "last LOGIN_URL \<in> set ''0123456789''" using str_nat_digits[of k] by blast
  then show False by (simp add: LOGIN_URL_def BASE_URL_def)
qed

lemma check_pages_hist:
  "check_pages folder failed ps s = (r, s2) \<Longrightarrow>
     \<exists>m. m \<le> length ps
       \<and> s2 = s\<lparr>trace := trace s @ map (\<lambda>k. OpenImage (page_file folder k)) (take m ps)\<rparr>
       \<and> (\<forall>x. r = Inr x \<longrightarrow> m = length ps
              \<and> list_all (\<lambda>k. is_image s (page_file folder k)) ps
              \<and> x = (failed \<or> list_ex (\<lambda>k. undersized s (page_file folder k)) ps))"
proof (induction ps arbitrary: failed s)
  case Nil
  then show ?case by auto
next
  case (Cons j ps)
  let ?s1 = "emit (OpenImage (page_file folder j)) s"
  show ?case
  proof (cases "is_image s (page_file folder j)")
    case False
    then have "image_open (page_file folder j) s = (Inl OSError, ?s1)"
      by (auto simp: image_open_def is_image_def split: option.splits content.splits)
    with Cons.prems have "r = Inl OSError" "s2 = ?s1" by simp_all
    then show ?thesis by (intro exI[of _ 1]) (simp add: emit_def)
  next
    case True
    then obtain wd ht where f: "map_of (files s) (norm_path (page_file folder j)) = Some (Img wd ht)"
      by (auto simp: is_image_def split: option.splits content.splits)
    then have io: "image_open (page_file folder j) s = (Inr (wd, ht), ?s1)"
      by (simp add: image_open_def)
    have u: "undersized s (page_file folder j) = (wd < FAIL_THRESHOLD \<or> ht < FAIL_THRESHOLD)"
      using f by (simp add: undersized_def)
    from Cons.prems io
    have "check_pages folder (failed \<or> wd < FAIL_THRESHOLD \<or> ht < FAIL_THRESHOLD) ps ?s1 = (r, s2)"
      by simp
    from Cons.IH[OF this] obtain m where m: "m \<le> length ps"
      "s2 = ?s1\<lparr>trace := trace ?s1 @ map (\<lambda>k. OpenImage (page_file folder k)) (take m ps)\<rparr>"
      "\<forall>x. r = Inr x \<longrightarrow> m = length ps
              \<and> list_all (\<lambda>k. is_image ?s1 (page_file folder k)) ps
              \<and> x = ((failed \<or> wd < FAIL_THRESHOLD \<or> ht < FAIL_THRESHOLD)
                     \<or> list_ex (\<lambda>k. undersized ?s1 (page_file folder k)) ps)" by blast
    show ?thesis
      using m True u by (intro exI[of _ "Suc m"]) (auto simp: emit_def)
  qed
qed

lemma remove_pages_trace: "trace (snd (remove_pages folder ps s)) = trace s"
  by (induction ps arbitrary: s) (auto simp: Let_def os_remove_def split: sum.splits prod.splits)

lemma remove_manga_folder_trace: "trace (snd (remove_manga_folder folder n s)) = trace s"
  using remove_pages_trace[of folder "[1..<Suc n]" s]
  by (auto simp: remove_manga_folder_def then_do_def os_rmdir_def split: sum.splits prod.splits)

lemma write_members_trace: "trace (snd (write_members z folder acc ps s)) = trace s"
  by (induction ps arbitrary: s acc) (auto split: option.splits)

lemma pack_item_trace: "trace (snd (pack_item cfg name folder n s)) = trace s"
proof -
  let ?z = "path_join (root_manga_dir cfg) (name @ ''.cbz'')"
  obtain r1 s1 where w: "write_members ?z folder [] [1..<Suc n] s = (r1, s1)" by fastforce
  have t1: "trace s1 = trace s" using write_members_trace[of ?z folder "[]" "[1..<Suc n]" s] w by simp
  show ?thesis
    using w t1 remove_manga_folder_trace[of folder n s1]
    by (cases r1) (auto simp: pack_item_def Let_def then_do_def)
qed

lemma reinit_browser_trace:
  "trace (reinit_browser cfg s) = trace s @ [CloseBrowser, InitBrowser, Get LOGIN_URL,
      Resize (fst (default_display cfg)) (snd (default_display cfg))]"
  by (simp add: reinit_browser_def)

lemma finish_item_hist:
  assumes "finish_item cfg url name folder n s = (r, s2)"
  shows "\<exists>m. trace s2 = trace s @ map (\<lambda>k. OpenImage (page_file folder k)) (take m [1..<Suc n])
              @ (if r = Inr False
                 then [CloseBrowser, InitBrowser, Get LOGIN_URL,
                       Resize (fst (default_display cfg)) (snd (default_display cfg))]
                 else [])
       \<and> (\<forall>b. r = Inr b \<longrightarrow> m = n \<and> pages_are_images s folder n
               \<and> b = (\<not> some_undersized s folder n))"
proof -
  obtain rc sc where c: "check_pages folder False [1..<Suc n] s = (rc, sc)" by fastforce
  from check_pages_hist[OF c] obtain m where m: "m \<le> length [1..<Suc n]"
    "sc = s\<lparr>trace := trace s @ map (\<lambda>k. OpenImage (page_file folder k)) (take m [1..<Suc n])\<rparr>"
    "\<forall>x. rc = Inr x \<longrightarrow> m = length [1..<Suc n]
           \<and> list_all (\<lambda>k. is_image s (page_file folder k)) [1..<Suc n]
           \<and> x = (False \<or> list_ex (\<lambda>k. undersized s (page_file folder k)) [1..<Suc n])" by blast
  have tc: "trace sc = trace s @ map (\<lambda>k. OpenImage (page_file folder k)) (take m [1..<Suc n])"
    using m(2) by simp
  show ?thesis
  proof (cases rc)
    case (Inl e)
    with assms c have "r = Inl e" "s2 = sc" by (simp_all add: finish_item_def then_do_def)
    with tc show ?thesis by (intro exI[of _ m]) simp
  next
    case (Inr x)
    with m(3) have mn: "m = n" and img: "pages_are_images s folder n"
      and x: "x = some_undersized s folder n"
      by (simp_all add: pages_are_images_def some_undersized_def)
    show ?thesis
    proof (cases x)
      case True
      obtain rr sr where rm: "remove_manga_folder folder n (add_failed url sc) = (rr, sr)" by fastforce
      have tr: "trace sr = trace sc"
        using remove_manga_folder_trace[of folder n "add_failed url sc"] rm by (simp add: add_failed_def)
      show ?thesis
      proof (cases rr)
        case (Inl e)
        with assms c Inr True rm have "r = Inl e" "s2 = sr" by (simp_all add: finish_item_def then_do_def)
        with tr tc show ?thesis by (intro exI[of _ m]) simp
      next
        case rr: (Inr a)
        with assms c Inr True rm have "r = Inr False" "s2 = reinit_browser cfg sr"
          by (simp_all add: finish_item_def then_do_def)
        with tr tc mn img x True show ?thesis
          by (intro exI[of _ m]) (simp add: reinit_browser_trace)
      qed
    next
      case False
      obtain rp sp where p: "(if pack cfg then pack_item cfg name folder n else (\<lambda>s1. (Inr (), s1))) sc = (rp, sp)"
        by fastforce
      have tp: "trace sp = trace sc"
        using p pack_item_trace[of cfg name folder n sc] by (auto split: if_splits)
      show ?thesis
      proof (cases rp)
        case (Inl e)
        with assms c Inr False p have "r = Inl e" "s2 = sp" by (simp_all add: finish_item_def then_do_def)
        with tp tc show ?thesis by (intro exI[of _ m]) simp
      next
        case rp: (Inr a)
        with assms c Inr False p have "r = Inr True" "s2 = add_done url sp"
          by (simp_all add: finish_item_def then_do_def)
        with tp tc mn img x False show ?thesis
          by (intro exI[of _ m]) (simp add: add_done_def)
      qed
    qed
  qed
qed

lemma not_touches_open: "list_all (\<lambda>e. \<not> touches u f k e) (map (\<lambda>j. OpenImage (page_file f j)) js)"
  by (simp add: list_all_iff)

lemma not_touches_reinit:
  "list_all (\<lambda>e. \<not> touches u f k e) [CloseBrowser, InitBrowser, Get LOGIN_URL, Resize a b]"
  using login_not_reader[of u k] by simp

lemma left_alone_events:
  "left_alone u f k s s1 \<Longrightarrow> trace s1 = trace s @ evs \<Longrightarrow> list_all (\<lambda>e. \<not> touches u f k e) evs"
  by (auto simp: left_alone_def)

lemma is_image_files:
  "map_of (files s1) (norm_path p) = map_of (files s) (norm_path p) \<Longrightarrow> is_image s1 p = is_image s p"
  by (simp add: is_image_def)

lemma undersized_files:
  "map_of (files s1) (norm_path p) = map_of (files s) (norm_path p) \<Longrightarrow> undersized s1 p = undersized s p"
  by (simp add: undersized_def)

lemma index_phase:
  assumes "waiting_loading_page w False False (browser_get u s) = (r1, s1)"
  shows "\<exists>idx. trace s1 = trace s @ idx \<and> (\<forall>k. list_all (\<lambda>e. \<not> touches u f k e) idx)"
    and "files s1 = files s" and "location s1 = u"
  using assms
  by (auto simp: waiting_loading_page_def Let_def program_exit_def split: if_splits)

text \<open>
  C7: in the run of an item of N pages, no page among 1..N whose file is on
  disk when the item starts is fetched or captured: the history of the item
  holds no request for its reader page and no screenshot into its file. When the
  item is recorded, the history of the item ends with the opening of the page
  files 1..N, one after the other, the skipped ones included, followed only by
  the restart of the browser when the item failed; an item is recorded completed
  only if the files of the skipped pages are images that pass the check, and the
  item is recorded in exactly one list.
\<close>

theorem resumed_item_skips_and_validates:
  assumes run: "process_item cfg w raw_url s = (r, s')"
    and cnt: "get_page_count (page_source (site w (sanitize_url raw_url))) = Some n"
    and u: "url = sanitize_url raw_url"
    and f: "folder = path_join (root_manga_dir cfg) (last_segment url)"
  shows "\<exists>evs. trace s' = trace s @ evs
      \<and> (\<forall>k\<in>set [1..<Suc n]. isfile s (page_file folder k)
            \<longrightarrow> list_all (\<lambda>e. \<not> touches url folder k e) evs)
      \<and> (\<forall>b. r = Inr b \<longrightarrow>
            (\<exists>pre. evs = pre @ map (\<lambda>k. OpenImage (page_file folder k)) [1..<Suc n]
                      @ (if b then []
                         else [CloseBrowser, InitBrowser, Get LOGIN_URL,
                               Resize (fst (default_display cfg)) (snd (default_display cfg))]))
          \<and> (b \<longrightarrow> (\<forall>k\<in>set [1..<Suc n]. isfile s (page_file folder k)
                       \<longrightarrow> is_image s (page_file folder k) \<and> \<not> undersized s (page_file folder k)))
          \<and> (if b then done_txt s' = done_txt s @ url @ [LF] \<and> fail_txt s' = fail_txt s
              else fail_txt s' = fail_txt s @ url @ [LF] \<and> done_txt s' = done_txt s))"
proof -
  let ?s0 = "browser_get url s"
  obtain r1 s1 where w: "waiting_loading_page w False False ?s0 = (r1, s1)" by fastforce
  from index_phase(1)[OF w, of folder] obtain idx where idx: "trace s1 = trace s @ idx"
    "\<And>k. list_all (\<lambda>e. \<not> touches url folder k e) idx" by blast
  have f1: "files s1 = files s" and loc1: "location s1 = url"
    using index_phase(2,3)[OF w] by simp_all
  have cnt1: "get_page_count (page_source (site w (location s1))) = Some n"
    using cnt u loc1 by simp
  have "process_item cfg w raw_url s =
     then_do (\<lambda>s. waiting_loading_page w False False (browser_get url s))
       (\<lambda>_ s1. case get_page_count (page_source (site w (location s1))) of
            None \<Rightarrow> (Inr False, add_failed url s1)
          | Some page_count \<Rightarrow>
              then_do (if \<not> path_exists s1 folder then os_mkdir folder else (\<lambda>s. (Inr (), s)))
                (\<lambda>_. then_do
                        (\<lambda>s2. fetch_pages cfg w url folder True [1..<Suc page_count]
                                 (say (DownloadingMsg (last_segment url)) s2))
                        (\<lambda>_. finish_item cfg url (last_segment url) folder page_count))
                s1) s"
    unfolding process_item_def Let_def f u by (rule refl)
  with run have run2: "then_do (\<lambda>s. waiting_loading_page w False False (browser_get url s))
       (\<lambda>_ s1. case get_page_count (page_source (site w (location s1))) of
            None \<Rightarrow> (Inr False, add_failed url s1)
          | Some page_count \<Rightarrow>
              then_do (if \<not> path_exists s1 folder then os_mkdir folder else (\<lambda>s. (Inr (), s)))
                (\<lambda>_. then_do
                        (\<lambda>s2. fetch_pages cfg w url folder True [1..<Suc page_count]
                                 (say (DownloadingMsg (last_segment url)) s2))
                        (\<lambda>_. finish_item cfg url (last_segment url) folder page_count))
                s1) s = (r, s')" by simp
  show ?thesis
  proof (cases r1)
    case (Inl e)
    then have "r = Inl e" "s' = s1"
      using run2 w by (simp_all add: then_do_def)
    then show ?thesis using idx by (intro exI[of _ idx]) simp
  next
    case (Inr a)
    obtain r2 s2 where mk: "(if \<not> path_exists s1 folder then os_mkdir folder
                             else (\<lambda>s. (Inr (), s))) s1 = (r2, s2)" by fastforce
    have t2: "trace s2 = trace s1" and f2: "files s2 = files s1"
      using mk by (auto simp: os_mkdir_def split: if_splits)
    show ?thesis
    proof (cases r2)
      case (Inl e)
      then have "r = Inl e" "s' = s2"
        using run2 w Inr cnt1 mk by (simp_all add: then_do_def)
      then show ?thesis using idx t2 by (intro exI[of _ idx]) simp
    next
      case r2: (Inr a2)
      let ?s3 = "say (DownloadingMsg (last_segment url)) s2"
      obtain r4 s4 where fp: "fetch_pages cfg w url folder True [1..<Suc n] ?s3 = (r4, s4)"
        by fastforce
      have "prefix (trace ?s3) (trace s4)"
        using run_ok_prefix[OF run_ok_fetch_pages[of ?s3 cfg w url folder True "[1..<Suc n]"]] fp
        by simp
      then obtain ef where ef: "trace s4 = trace ?s3 @ ef" by (auto simp: prefix_def)
      have la: "left_alone url folder k ?s3 s4" if "isfile s (page_file folder k)" for k
      proof -
        from that have "isfile ?s3 (page_file folder k)" by (simp add: isfile_def f1 f2)
        from left_alone_fetch[OF this, of url cfg w True "[1..<Suc n]"] fp show ?thesis by simp
      qed
      have efa: "list_all (\<lambda>e. \<not> touches url folder k e) ef" if "isfile s (page_file folder k)" for k
        using left_alone_events[OF la[OF that] ef] .
      have file4: "map_of (files s4) (norm_path (page_file folder k))
                     = map_of (files s) (norm_path (page_file folder k))"
        if "isfile s (page_file folder k)" for k
        using left_alone_file[OF la[OF that]] by (simp add: f1 f2)
      have t4: "trace s4 = trace s @ idx @ ef" using ef t2 idx(1) by simp
      show ?thesis
      proof (cases r4)
        case (Inl e)
        then have "r = Inl e" "s' = s4"
          using run2 w Inr cnt1 mk r2 fp by (simp_all add: then_do_def)
        then show ?thesis using t4 idx(2) efa by (intro exI[of _ "idx @ ef"]) simp
      next
        case r4: (Inr a4)
        have fin: "finish_item cfg url (last_segment url) folder n s4 = (r, s')"
          using run2 w Inr cnt1 mk r2 fp r4 by (simp add: then_do_def)
        let ?post = "if r = Inr False
                 then [CloseBrowser, InitBrowser, Get LOGIN_URL,
                       Resize (fst (default_display cfg)) (snd (default_display cfg))]
                 else []"
        from finish_item_hist[OF fin] obtain m where
          m: "trace s' = trace s4 @ map (\<lambda>k. OpenImage (page_file folder k)) (take m [1..<Suc n]) @ ?post"
          and mb: "\<And>b. r = Inr b \<Longrightarrow> m = n \<and> pages_are_images s4 folder n
               \<and> b = (\<not> some_undersized s4 folder n)" by blast
        let ?evs = "idx @ ef @ map (\<lambda>k. OpenImage (page_file folder k)) (take m [1..<Suc n]) @ ?post"
        have T: "trace s' = trace s @ ?evs" using m t4 by simp
        have A: "list_all (\<lambda>e. \<not> touches url folder k e) ?evs" if "isfile s (page_file folder k)" for k
          using idx(2)[of k] efa[OF that] not_touches_open[of url folder k "take m [1..<Suc n]"]
            not_touches_reinit[of url folder k]
          by (simp del: touches.simps)
        have B: "(\<exists>pre. ?evs = pre @ map (\<lambda>k. OpenImage (page_file folder k)) [1..<Suc n]
                      @ (if b then []
                         else [CloseBrowser, InitBrowser, Get LOGIN_URL,
                               Resize (fst (default_display cfg)) (snd (default_display cfg))]))
          \<and> (b \<longrightarrow> (\<forall>k\<in>set [1..<Suc n]. isfile s (page_file folder k)
                       \<longrightarrow> is_image s (page_file folder k) \<and> \<not> undersized s (page_file folder k)))
          \<and> (if b then done_txt s' = done_txt s @ url @ [LF] \<and> fail_txt s' = fail_txt s
              else fail_txt s' = fail_txt s @ url @ [LF] \<and> done_txt s' = done_txt s)"
          if rb: "r = Inr b" for b
        proof (intro conjI)
          from mb[OF rb] have mn: "m = n" by simp
          have "take m [1..<Suc n] = [1..<Suc n]" using mn by simp
          then show "\<exists>pre. ?evs = pre @ map (\<lambda>k. OpenImage (page_file folder k)) [1..<Suc n]
                      @ (if b then []
                         else [CloseBrowser, InitBrowser, Get LOGIN_URL,
                               Resize (fst (default_display cfg)) (snd (default_display cfg))])"
            using rb by (intro exI[of _ "idx @ ef"]) (cases b; simp)
        next
          show "b \<longrightarrow> (\<forall>k\<in>set [1..<Suc n]. isfile s (page_file folder k)
                       \<longrightarrow> is_image s (page_file folder k) \<and> \<not> undersized s (page_file folder k))"
          proof (intro impI ballI)
            fix k assume b: b and k: "k \<in> set [1..<Suc n]" and e: "isfile s (page_file folder k)"
            from mb[OF rb] b have "pages_are_images s4 folder n" "\<not> some_undersized s4 folder n"
              by simp_all
            with k have "is_image s4 (page_file folder k)" "\<not> undersized s4 (page_file folder k)"
              by (auto simp: pages_are_images_def some_undersized_def list_all_iff list_ex_iff)
            then show "is_image s (page_file folder k) \<and> \<not> undersized s (page_file folder k)"
              using is_image_files[OF file4[OF e]] undersized_files[OF file4[OF e]] by simp
          qed
        next
          have "item_outcome url s (r, s')"
            using item_outcome_process[of raw_url s cfg w] run u by simp
          then show "if b then done_txt s' = done_txt s @ url @ [LF] \<and> fail_txt s' = fail_txt s
              else fail_txt s' = fail_txt s @ url @ [LF] \<and> done_txt s' = done_txt s"
            using rb by (cases b) (simp_all add: item_outcome_def)
        qed
        have C: "\<forall>k\<in>set [1..<Suc n]. isfile s (page_file folder k)
            \<longrightarrow> list_all (\<lambda>e. \<not> touches url folder k e) ?evs"
          using A by blast
        have D: "\<forall>b. r = Inr b \<longrightarrow>
            (\<exists>pre. ?evs = pre @ map (\<lambda>k. OpenImage (page_file folder k)) [1..<Suc n]
                      @ (if b then []
                         else [CloseBrowser, InitBrowser, Get LOGIN_URL,
                               Resize (fst (default_display cfg)) (snd (default_display cfg))]))
          \<and> (b \<longrightarrow> (\<forall>k\<in>set [1..<Suc n]. isfile s (page_file folder k)
                       \<longrightarrow> is_image s (page_file folder k) \<and> \<not> undersized s (page_file folder k)))
          \<and> (if b then done_txt s' = done_txt s @ url @ [LF] \<and> fail_txt s' = fail_txt s
              else fail_txt s' = fail_txt s @ url @ [LF] \<and> done_txt s' = done_txt s)"
          using B by (intro allI impI)
        show ?thesis
          by (rule exI[of _ ?evs]) (intro conjI T C D)
      qed
    qed
  qed
qed

text \<open>
  The theorem at the item of two pages with the first page on disk: page 2 alone
  is fetched, both files are opened, and the item is completed.
\<close>

lemma example_resumed_run:
  "process_item cfg0 world_pair ''https://site/x'' s_part
     = (Inr True, snd (process_item cfg0 world_pair ''https://site/x'' s_part))"
  "trace (snd (process_item cfg0 world_pair ''https://site/x'' s_part))
     = [Get ''https://site/x'', Sleep 1, SwitchDefault, Located IconLink,
        Get ''https://site/x/read/page/2'', Sleep 3, SwitchFrame, Located PageView,
        Resize 1200 1700, RemoveLayer 2, Screenshot ''manga/x/2.png'',
        OpenImage ''manga/x/1.png'', OpenImage ''manga/x/2.png'']"
  "fst (process_item cfg0 world_pair ''https://site/x'' s_part) = Inr True"
  by code_simp+

theorem resumed_item_skips_and_validates_witness:
  "fst (process_item cfg0 world_pair ''https://site/x'' s_part) = Inr True
   \<and> isfile s_part (page_file ''manga/x'' 1)
   \<and> (\<exists>evs. trace (snd (process_item cfg0 world_pair ''https://site/x'' s_part)) = trace s_part @ evs
         \<and> list_all (\<lambda>e. \<not> touches ''https://site/x'' ''manga/x'' 1 e) evs
         \<and> (\<exists>pre. evs = pre @ map (\<lambda>k. OpenImage (page_file ''manga/x'' k)) [1..<Suc 2] @ []))
   \<and> is_image s_part (page_file ''manga/x'' 1) \<and> \<not> undersized s_part (page_file ''manga/x'' 1)
   \<and> done_txt (snd (process_item cfg0 world_pair ''https://site/x'' s_part))
        = done_txt s_part @ ''https://site/x'' @ [LF]
   \<and> fail_txt (snd (process_item cfg0 world_pair ''https://site/x'' s_part)) = fail_txt s_part"
proof -
  define run where "run = process_item cfg0 world_pair ''https://site/x'' s_part"
  have h: "process_item cfg0 world_pair ''https://site/x'' s_part = (Inr True, snd run)"
    unfolding run_def by (rule example_resumed_run(1))
  have r: "fst run = Inr True" unfolding run_def by (rule example_resumed_run(3))
  have cnt: "get_page_count (page_source (site world_pair (sanitize_url ''https://site/x''))) = Some 2"
    by code_simp
  have u: "''https://site/x'' = sanitize_url ''https://site/x''" by code_simp
  have f: "''manga/x'' = path_join (root_manga_dir cfg0) (last_segment ''https://site/x'')"
    by code_simp
  have k: "(1::nat) \<in> set [1..<Suc 2]" by code_simp
  have e: "isfile s_part (page_file ''manga/x'' 1)" by code_simp
  from resumed_item_skips_and_validates[OF h cnt u f] obtain evs where
    c: "trace (snd run) = trace s_part @ evs
      \<and> (\<forall>k\<in>set [1..<Suc 2]. isfile s_part (page_file ''manga/x'' k)
            \<longrightarrow> list_all (\<lambda>e. \<not> touches ''https://site/x'' ''manga/x'' k e) evs)
      \<and> (\<forall>b. (Inr True :: abort + bool) = Inr b \<longrightarrow>
            (\<exists>pre. evs = pre @ map (\<lambda>k. OpenImage (page_file ''manga/x'' k)) [1..<Suc 2]
                      @ (if b then []
                         else [CloseBrowser, InitBrowser, Get LOGIN_URL,
                               Resize (fst (default_display cfg0)) (snd (default_display cfg0))]))
          \<and> (b \<longrightarrow> (\<forall>k\<in>set [1..<Suc 2]. isfile s_part (page_file ''manga/x'' k)
                       \<longrightarrow> is_image s_part (page_file ''manga/x'' k)
                           \<and> \<not> undersized s_part (page_file ''manga/x'' k)))
          \<and> (if b then done_txt (snd run) = done_txt s_part @ ''https://site/x'' @ [LF]
                        \<and> fail_txt (snd run) = fail_txt s_part
              else fail_txt (snd run) = fail_txt s_part @ ''https://site/x'' @ [LF]
                        \<and> done_txt (snd run) = done_txt s_part))" ..
  note c1 = c[THEN conjunct1]
  note c2 = c[THEN conjunct2, THEN conjunct1, THEN bspec, OF k, THEN mp, OF e]
  note c3 = c[THEN conjunct2, THEN conjunct2, THEN spec, of True, THEN mp, OF refl]
  note d1 = c3[THEN conjunct1, unfolded if_True]
  note d2 = c3[THEN conjunct2, THEN conjunct1, THEN mp, OF TrueI, THEN bspec, OF k, THEN mp, OF e]
  note d3 = c3[THEN conjunct2, THEN conjunct2, unfolded if_True]
  have ev: "\<exists>evs. trace (snd run) = trace s_part @ evs
         \<and> list_all (\<lambda>e. \<not> touches ''https://site/x'' ''manga/x'' 1 e) evs
         \<and> (\<exists>pre. evs = pre @ map (\<lambda>k. OpenImage (page_file ''manga/x'' k)) [1..<Suc 2] @ [])"
    by (rule exI[of _ evs]) (intro conjI c1 c2 d1)
  from r e ev d2 d3 show ?thesis unfolding run_def by (intro conjI) (elim conjE; assumption)+
qed

end
